theory Spec2Isabelle
  imports Complex_Main "HOL-Library.Sublist"
begin

section \<open>JavaScript strings\<close>

text \<open>
  Strings are lists of 8-bit characters: the model covers texts whose code units are
  below 256.  Of these, the ones JavaScript's \<^verbatim>\<open>trim\<close> and the regular
  expression class \<^verbatim>\<open>\s\<close> treat as white space are tab, line feed, vertical tab,
  form feed, carriage return, space and the no-break space.
\<close>

definition is_space :: "char \<Rightarrow> bool" where
  "is_space c = (c \<in> set [CHR 0x09, CHR 0x0A, CHR 0x0B, CHR 0x0C, CHR 0x0D, CHR 0x20, CHR 0xA0])"

definition is_digit :: "char \<Rightarrow> bool" where
  "is_digit c = (c \<in> set ''0123456789'')"

definition trim :: "string \<Rightarrow> string" where
  "trim s = rev (dropWhile is_space (rev (dropWhile is_space s)))"

text \<open>
  Case conversion of the letters a to z.  The patterns the program matches without regard
  to case are ASCII, and no character from 128 to 255 is turned into an ASCII letter by
  the case folding of a regular expression.
\<close>

definition upc :: "char \<Rightarrow> char" where
  "upc c = (case map_of (zip ''abcdefghijklmnopqrstuvwxyz'' ''ABCDEFGHIJKLMNOPQRSTUVWXYZ'') c of
              Some u \<Rightarrow> u | None \<Rightarrow> c)"

definition lwc :: "char \<Rightarrow> char" where
  "lwc c = (case map_of (zip ''ABCDEFGHIJKLMNOPQRSTUVWXYZ'' ''abcdefghijklmnopqrstuvwxyz'') c of
              Some l \<Rightarrow> l | None \<Rightarrow> c)"

definition toUpperCase :: "string \<Rightarrow> string" where
  "toUpperCase s = map upc s"

definition toLowerCase :: "string \<Rightarrow> string" where
  "toLowerCase s = map lwc s"

definition startsWith :: "string \<Rightarrow> string \<Rightarrow> bool" where
  "startsWith s p = (take (length p) s = p)"

text \<open>\<^verbatim>\<open>s.indexOf(p)\<close>: the position of the first occurrence, \<open>None\<close> for -1.\<close>

fun indexOf :: "string \<Rightarrow> string \<Rightarrow> nat option" where
  "indexOf [] p = (if p = [] then Some 0 else None)"
| "indexOf (c # cs) p =
     (if startsWith (c # cs) p then Some 0 else map_option Suc (indexOf cs p))"

text \<open>\<^verbatim>\<open>s.lastIndexOf(p)\<close>: the position of the last occurrence.\<close>

definition lastIndexOf :: "string \<Rightarrow> string \<Rightarrow> nat option" where
  "lastIndexOf s p =
     (case indexOf (rev s) (rev p) of
        None \<Rightarrow> None
      | Some j \<Rightarrow> Some (length s - length p - j))"

definition str_includes :: "string \<Rightarrow> string \<Rightarrow> bool" where
  "str_includes s p = (indexOf s p \<noteq> None)"

text \<open>\<^verbatim>\<open>s.substring(a, b)\<close>; the two indices are swapped when \<open>a > b\<close>.\<close>

definition substring :: "string \<Rightarrow> nat \<Rightarrow> nat \<Rightarrow> string" where
  "substring s a b = take (max a b - min a b) (drop (min a b) s)"

text \<open>
  \<^verbatim>\<open>/p/i.test(s)\<close> for a pattern \<open>p\<close> that is a literal ASCII text: some position
  of \<open>s\<close> carries \<open>p\<close>, letters compared without regard to case.
\<close>

definition test_ci :: "string \<Rightarrow> string \<Rightarrow> bool" where
  "test_ci p s = str_includes (toUpperCase s) (toUpperCase p)"

text \<open>Decimal notation of a natural number, and \<^verbatim>\<open>String(n).padStart(3, '0')\<close>.\<close>

fun digits_of :: "nat \<Rightarrow> nat \<Rightarrow> string" where
  "digits_of 0 n = []"
| "digits_of (Suc fuel) n =
     (if n < 10 then [''0123456789'' ! n]
      else digits_of fuel (n div 10) @ [''0123456789'' ! (n mod 10)])"

definition show_nat :: "nat \<Rightarrow> string" where
  "show_nat n = digits_of (Suc n) n"

definition show_int :: "int \<Rightarrow> string" where
  "show_int i = (if i < 0 then CHR ''-'' # show_nat (nat (- i)) else show_nat (nat i))"

definition padStart :: "string \<Rightarrow> nat \<Rightarrow> char \<Rightarrow> string" where
  "padStart s n c = replicate (n - length s) c @ s"

section \<open>JSON values and the JavaScript operations on them\<close>

text \<open>
  What \<^verbatim>\<open>JSON.parse\<close> returns: a tree.  An object is the list of its properties in
  insertion order, every key once.  Numbers are the integers (the program computes with
  status codes only).  \<^verbatim>\<open>undefined\<close> is \<open>None\<close> of \<open>json option\<close>.
\<close>

datatype json =
    JNull
  | JBool bool
  | JNum int
  | JStr string
  | JArr "json list"
  | JObj "(string \<times> json) list"

fun truthy :: "json \<Rightarrow> bool" where
  "truthy JNull = False"
| "truthy (JBool b) = b"
| "truthy (JNum n) = (n \<noteq> 0)"
| "truthy (JStr s) = (s \<noteq> [])"
| "truthy (JArr xs) = True"
| "truthy (JObj kvs) = True"

text \<open>
  \<^verbatim>\<open>v?.k\<close> for the property names the program reads (none of them is a property of
  the String or Array prototypes): the property of an object, \<^verbatim>\<open>undefined\<close> on
  anything else.  On a value other than \<^verbatim>\<open>null\<close> this is \<^verbatim>\<open>v.k\<close> too.
\<close>

definition get_prop :: "json \<Rightarrow> string \<Rightarrow> json option" where
  "get_prop v k = (case v of JObj kvs \<Rightarrow> map_of kvs k | _ \<Rightarrow> None)"

text \<open>\<^verbatim>\<open>a || b\<close> where \<open>a\<close> may be \<^verbatim>\<open>undefined\<close>.\<close>

definition or_else :: "json option \<Rightarrow> json \<Rightarrow> json" where
  "or_else a b = (case a of Some v \<Rightarrow> (if truthy v then v else b) | None \<Rightarrow> b)"

definition is_truthy :: "json option \<Rightarrow> bool" where
  "is_truthy a = (case a of Some v \<Rightarrow> truthy v | None \<Rightarrow> False)"

text \<open>\<^verbatim>\<open>o.k = v\<close> and \<^verbatim>\<open>delete o.k\<close> on the property list of an object.\<close>

fun assign :: "(string \<times> json) list \<Rightarrow> string \<Rightarrow> json \<Rightarrow> (string \<times> json) list" where
  "assign [] k v = [(k, v)]"
| "assign ((k', v') # kvs) k v =
     (if k' = k then (k, v) # kvs else (k', v') # assign kvs k v)"

definition delete_key :: "(string \<times> json) list \<Rightarrow> string \<Rightarrow> (string \<times> json) list" where
  "delete_key kvs k = filter (\<lambda>kv. fst kv \<noteq> k) kvs"

section \<open>extractArrayFromText\<close>

text \<open>
  The match of \<^verbatim>\<open>/```(?:json)?([\s\S]*?)```/i\<close>, as its first group.  The match
  starts at the first triple backtick: when no closing triple backtick follows that one,
  none follows a later one either.  A tag \<^verbatim>\<open>json\<close> (in any case) right after the
  opening is skipped; it holds no backtick, so skipping it loses no closing fence.  The
  group is lazy: it ends at the first closing fence.
\<close>

definition fence_match :: "string \<Rightarrow> string option" where
  "fence_match text =
     (case indexOf text ''```'' of
        None \<Rightarrow> None
      | Some i \<Rightarrow>
          (let rest = drop (i + 3) text;
               inner = (if startsWith (toUpperCase rest) ''JSON'' then drop 4 rest else rest)
           in case indexOf inner ''```'' of
                None \<Rightarrow> None
              | Some j \<Rightarrow> Some (take j inner)))"

text \<open>
  The match of \<^verbatim>\<open>/"?testCases"?\s*:\s*(\[[\s\S]*?\])/i\<close>, as its first group.
  \<open>testCases_at s\<close> matches the pattern from the word \<^verbatim>\<open>testCases\<close> on at the
  head of \<open>s\<close> (the optional quote before the word does not change the group);
  \<open>testCases_match\<close> takes the leftmost position that matches.
\<close>

definition testCases_at :: "string \<Rightarrow> string option" where
  "testCases_at s =
     (if startsWith (toUpperCase s) ''TESTCASES'' then
        (let r1 = drop 9 s;
             r2 = (if startsWith r1 [CHR 0x22] then drop 1 r1 else r1)
         in case dropWhile is_space r2 of
              [] \<Rightarrow> None
            | c # r3 \<Rightarrow>
                if c \<noteq> CHR '':'' then None
                else (case dropWhile is_space r3 of
                        [] \<Rightarrow> None
                      | d # r4 \<Rightarrow>
                          if d \<noteq> CHR ''['' then None
                          else (case indexOf r4 '']'' of
                                  None \<Rightarrow> None
                                | Some j \<Rightarrow> Some (CHR ''['' # take (Suc j) r4))))
      else None)"

fun testCases_match :: "string \<Rightarrow> string option" where
  "testCases_match [] = None"
| "testCases_match (c # cs) =
     (case testCases_at (c # cs) of
        Some m \<Rightarrow> Some m
      | None \<Rightarrow> testCases_match cs)"

text \<open>
  The three strategies of the function, each the block of the source under the comment
  that numbers it.  \<open>parse\<close> is \<^verbatim>\<open>JSON.parse\<close>, \<open>None\<close> when it throws.
\<close>

definition strategy1 :: "(string \<Rightarrow> json option) \<Rightarrow> string \<Rightarrow> json list option" where
  "strategy1 parse text =
     (case fence_match text of
        None \<Rightarrow> None
      | Some inner \<Rightarrow>
          (case parse (trim inner) of
             None \<Rightarrow> None
           | Some parsed \<Rightarrow>
               (case parsed of
                  JArr xs \<Rightarrow> Some xs
                | _ \<Rightarrow>
                    (case get_prop parsed ''testCases'' of
                       Some (JArr ys) \<Rightarrow> Some ys
                     | _ \<Rightarrow> None))))"

definition strategy2 :: "(string \<Rightarrow> json option) \<Rightarrow> string \<Rightarrow> json list option" where
  "strategy2 parse text =
     (case (indexOf text ''['', lastIndexOf text '']'') of
        (Some i, Some j) \<Rightarrow>
          if j > i then
            (case parse (substring text i (j + 1)) of
               Some (JArr xs) \<Rightarrow> Some xs
             | _ \<Rightarrow> None)
          else None
      | _ \<Rightarrow> None)"

definition strategy3 :: "(string \<Rightarrow> json option) \<Rightarrow> string \<Rightarrow> json list option" where
  "strategy3 parse text =
     (case testCases_match text of
        None \<Rightarrow> None
      | Some m \<Rightarrow>
          (case parse m of
             Some (JArr xs) \<Rightarrow> Some xs
           | _ \<Rightarrow> None))"

definition extractArrayFromText :: "(string \<Rightarrow> json option) \<Rightarrow> string \<Rightarrow> json list option" where
  "extractArrayFromText parse text =
     (if text = [] then None
      else case strategy1 parse text of
             Some xs \<Rightarrow> Some xs
           | None \<Rightarrow>
               (case strategy2 parse text of
                  Some xs \<Rightarrow> Some xs
                | None \<Rightarrow> strategy3 parse text))"

section \<open>Serialising values\<close>

text \<open>
  \<^verbatim>\<open>String(v)\<close>: a string is itself, an array is its elements joined by commas
  (\<^verbatim>\<open>null\<close> as the empty text), an object is \<^verbatim>\<open>[object Object]\<close>.
\<close>

fun to_string :: "json \<Rightarrow> string"
  and join_strings :: "json list \<Rightarrow> string" where
  "to_string JNull = ''null''"
| "to_string (JBool b) = (if b then ''true'' else ''false'')"
| "to_string (JNum n) = show_int n"
| "to_string (JStr s) = s"
| "to_string (JArr xs) = join_strings xs"
| "to_string (JObj kvs) = ''[object Object]''"
| "join_strings [] = []"
| "join_strings [x] = (if x = JNull then [] else to_string x)"
| "join_strings (x # y # ys) =
     (if x = JNull then [] else to_string x) @ CHR '','' # join_strings (y # ys)"

text \<open>
  \<^verbatim>\<open>JSON.stringify(v)\<close> without indentation.  Inside a string the quote, the
  backslash and the control characters are escaped.
\<close>

definition hex_digit :: "nat \<Rightarrow> char" where
  "hex_digit n = ''0123456789abcdef'' ! (n mod 16)"

definition escape_char :: "char \<Rightarrow> string" where
  "escape_char c =
     (if c = CHR 0x22 then [CHR 0x5C, CHR 0x22]
      else if c = CHR 0x5C then [CHR 0x5C, CHR 0x5C]
      else if c = CHR 0x08 then [CHR 0x5C, CHR ''b'']
      else if c = CHR 0x0C then [CHR 0x5C, CHR ''f'']
      else if c = CHR 0x0A then [CHR 0x5C, CHR ''n'']
      else if c = CHR 0x0D then [CHR 0x5C, CHR ''r'']
      else if c = CHR 0x09 then [CHR 0x5C, CHR ''t'']
      else if (of_char c :: nat) < 32 then
        [CHR 0x5C, CHR ''u'', CHR ''0'', CHR ''0'',
         hex_digit (of_char c div 16), hex_digit (of_char c)]
      else [c])"

definition quote :: "string \<Rightarrow> string" where
  "quote s = CHR 0x22 # concat (map escape_char s) @ [CHR 0x22]"

fun stringify :: "json \<Rightarrow> string"
  and stringify_items :: "json list \<Rightarrow> string"
  and stringify_props :: "(string \<times> json) list \<Rightarrow> string" where
  "stringify JNull = ''null''"
| "stringify (JBool b) = (if b then ''true'' else ''false'')"
| "stringify (JNum n) = show_int n"
| "stringify (JStr s) = quote s"
| "stringify (JArr xs) = CHR ''['' # stringify_items xs @ '']''"
| "stringify (JObj kvs) = CHR ''{'' # stringify_props kvs @ ''}''"
| "stringify_items [] = []"
| "stringify_items [x] = stringify x"
| "stringify_items (x # y # ys) = stringify x @ CHR '','' # stringify_items (y # ys)"
| "stringify_props [] = []"
| "stringify_props [(k, v)] = quote k @ CHR '':'' # stringify v"
| "stringify_props ((k, v) # kv # kvs) =
     quote k @ CHR '':'' # stringify v @ CHR '','' # stringify_props (kv # kvs)"

section \<open>The generative model, its errors and the platform\<close>

text \<open>
  What the \<^verbatim>\<open>catch\<close> block of \<^verbatim>\<open>generateWithRetry\<close> reads of a thrown error:
  its message, \<^verbatim>\<open>error?.response?.data\<close>, \<^verbatim>\<open>error?.data\<close>, and the
  \<^verbatim>\<open>retry-after\<close> entry of \<^verbatim>\<open>error?.response?.headers\<close> and of
  \<^verbatim>\<open>error?.headers\<close>.
\<close>

record err =
  message :: string
  response_data :: "json option"
  data :: "json option"
  response_retry_after :: "json option"
  retry_after :: "json option"

text \<open>
  One call \<^verbatim>\<open>model.generateContent(prompt)\<close> followed by
  \<^verbatim>\<open>result.response.text() || ''\<close>: the text, or the error thrown on the way.
\<close>

datatype outcome = Responded string | Failed err

text \<open>
  The platform and the service, as the engine meets them: \<^verbatim>\<open>JSON.parse\<close>
  (\<open>None\<close> when it throws), \<^verbatim>\<open>JSON.stringify\<close>, \<^verbatim>\<open>parseFloat\<close>
  (\<open>None\<close> for NaN), the outcome of the model call made in attempt \<open>k\<close>, and the
  number \<^verbatim>\<open>Math.random()\<close> returns in attempt \<open>k\<close>.
\<close>

record env =
  json_parse :: "string \<Rightarrow> json option"
  json_stringify :: "json \<Rightarrow> string"
  parse_float :: "string \<Rightarrow> rat option"
  generateContent :: "nat \<Rightarrow> outcome"
  random :: "nat \<Rightarrow> rat"

section \<open>Test cases and the store of request objects\<close>

text \<open>
  \<^verbatim>\<open>JSON.parse\<close> returns a tree, but the padding loop of
  \<^verbatim>\<open>generateWithRetry\<close> puts the object held by the first case's
  \<^verbatim>\<open>request\<close> property into every case it adds, and the patching loop of the
  handler then writes into the request objects.  So request objects live in a store, and a
  case records the address of its own.  \<open>self\<close> is the case as it was parsed or built;
  when \<open>req\<close> is an address, the live value of its \<^verbatim>\<open>request\<close> property is
  the object at that address.  A \<^verbatim>\<open>request\<close> property that holds no object
  (a primitive, \<^verbatim>\<open>null\<close>, nothing) stays in \<open>self\<close>.
\<close>

type_synonym addr = nat

datatype request_ref = Inline | At addr

record tcase =
  self :: json
  req :: request_ref

record batch =
  cases :: "tcase list"
  store :: "addr \<rightharpoonup> json"
  fresh :: addr

definition empty_batch :: batch where
  "empty_batch = \<lparr>cases = [], store = Map.empty, fresh = 0\<rparr>"

text \<open>Appending a case: with a request object of its own, with a shared one, with none.\<close>

definition push_own :: "json \<Rightarrow> json \<Rightarrow> batch \<Rightarrow> batch" where
  "push_own tc r b =
     b\<lparr>cases := cases b @ [\<lparr>self = tc, req = At (fresh b)\<rparr>],
       store := (store b)(fresh b \<mapsto> r),
       fresh := Suc (fresh b)\<rparr>"

definition push_shared :: "json \<Rightarrow> addr \<Rightarrow> batch \<Rightarrow> batch" where
  "push_shared tc a b = b\<lparr>cases := cases b @ [\<lparr>self = tc, req = At a\<rparr>]\<rparr>"

definition push_inline :: "json \<Rightarrow> batch \<Rightarrow> batch" where
  "push_inline tc b = b\<lparr>cases := cases b @ [\<lparr>self = tc, req = Inline\<rparr>]\<rparr>"

text \<open>The array the model's text decoded to, element by element.\<close>

definition load_case :: "batch \<Rightarrow> json \<Rightarrow> batch" where
  "load_case b tc =
     (case get_prop tc ''request'' of
        Some (JObj r) \<Rightarrow> push_own tc (JObj r) b
      | Some (JArr r) \<Rightarrow> push_own tc (JArr r) b
      | _ \<Rightarrow> push_inline tc b)"

definition load :: "json list \<Rightarrow> batch" where
  "load tcs = foldl load_case empty_batch tcs"

text \<open>The case as \<^verbatim>\<open>JSON.stringify\<close> would show it.\<close>

definition view :: "(addr \<rightharpoonup> json) \<Rightarrow> tcase \<Rightarrow> json" where
  "view st c =
     (case (self c, req c) of
        (JObj kvs, At a) \<Rightarrow>
          (case st a of Some r \<Rightarrow> JObj (assign kvs ''request'' r) | None \<Rightarrow> JObj kvs)
      | (v, _) \<Rightarrow> v)"

definition view_all :: "batch \<Rightarrow> json list" where
  "view_all b = map (view (store b)) (cases b)"

section \<open>generateFallbackTestCases\<close>

definition tc_id :: "nat \<Rightarrow> string" where
  "tc_id i = ''TC_'' @ padStart (show_nat i) 3 (CHR ''0'')"

definition band :: "nat \<Rightarrow> string" where
  "band i = (if i \<le> 3 then ''valid'' else if i \<le> 7 then ''invalid''
             else if i \<le> 10 then ''boundary'' else ''security'')"

definition fallback_request :: json where
  "fallback_request =
     JObj [(''method'', JStr ''GET''), (''endpoint'', JStr ''/api/test''),
           (''headers'', JObj [(''Content-Type'', JStr ''application/json'')])]"

definition fallback_case :: "nat \<Rightarrow> json" where
  "fallback_case i =
     JObj [(''id'', JStr (tc_id i)),
           (''category'', JStr (band i)),
           (''description'', JStr (band i @ '' test '' @ show_nat i)),
           (''request'', fallback_request),
           (''expected_response'', JObj [(''status'', JNum (if i \<le> 3 then 200 else 400))])]"

definition generateFallbackTestCases :: batch where
  "generateFallbackTestCases =
     foldl (\<lambda>b i. push_own (fallback_case i) fallback_request b) empty_batch [1..<13]"

section \<open>generateWithRetry\<close>

subsection \<open>The try block of one attempt\<close>

text \<open>
  The block under \<^verbatim>\<open>// Try parse\<close>: the decoded array, or \<open>None\<close> for
  \<^verbatim>\<open>null\<close>.  The extractor runs only when \<^verbatim>\<open>JSON.parse\<close> throws.
\<close>

definition recover :: "env \<Rightarrow> string \<Rightarrow> json list option" where
  "recover env responseText =
     (case json_parse env responseText of
        Some parsed \<Rightarrow>
          (case parsed of
             JArr xs \<Rightarrow> Some xs
           | _ \<Rightarrow>
               (case get_prop parsed ''testCases'' of
                  Some (JArr ys) \<Rightarrow> Some ys
                | _ \<Rightarrow> None))
      | None \<Rightarrow> extractArrayFromText (json_parse env) responseText)"

text \<open>
  One turn of \<^verbatim>\<open>while (testCases.length < 12)\<close>.  The new case's request is
  \<^verbatim>\<open>testCases[0]?.request || {}\<close>: the first case's request object itself when it
  has one, its value when that is a truthy primitive, a new empty object otherwise.
\<close>

definition autofill_case :: "nat \<Rightarrow> json \<Rightarrow> json" where
  "autofill_case idx r =
     JObj [(''id'', JStr (tc_id idx)),
           (''category'', JStr (band idx)),
           (''description'', JStr (''Auto-filled '' @ show_nat idx)),
           (''request'', r),
           (''expected_response'', JObj [(''status'', JNum (if idx \<le> 3 then 200 else 400))])]"

definition push_autofill :: "batch \<Rightarrow> batch" where
  "push_autofill b =
     (let idx = length (cases b) + 1 in
      case cases b of
        [] \<Rightarrow> push_own (autofill_case idx (JObj [])) (JObj []) b
      | c0 # _ \<Rightarrow>
          (case req c0 of
             At a \<Rightarrow>
               push_shared (autofill_case idx (case store b a of Some r \<Rightarrow> r | None \<Rightarrow> JObj [])) a b
           | Inline \<Rightarrow>
               (if is_truthy (get_prop (self c0) ''request'')
                then push_inline (autofill_case idx (or_else (get_prop (self c0) ''request'') (JObj []))) b
                else push_own (autofill_case idx (JObj [])) (JObj []) b)))"

function pad :: "batch \<Rightarrow> batch" where
  "pad b = (if length (cases b) < 12 then pad (push_autofill b) else b)"
  by pat_completeness auto
termination
  by (relation "measure (\<lambda>b. 12 - length (cases b))")
     (auto simp: push_autofill_def push_own_def push_shared_def push_inline_def Let_def
           split: list.splits request_ref.splits)

declare pad.simps [simp del]

text \<open>\<^verbatim>\<open>testCases.slice(0, 12)\<close>: the copy holds the same case objects.\<close>

definition slice12 :: "batch \<Rightarrow> batch" where
  "slice12 b = b\<lparr>cases := take 12 (cases b)\<rparr>"

definition insufficient :: "nat \<Rightarrow> err" where
  "insufficient n =
     \<lparr>message = ''Insufficient tests: got '' @ show_nat n,
      response_data = None, data = None, response_retry_after = None, retry_after = None\<rparr>"

definition attempt_try :: "env \<Rightarrow> nat \<Rightarrow> err + batch" where
  "attempt_try env attempt =
     (case generateContent env attempt of
        Failed e \<Rightarrow> Inl e
      | Responded responseText \<Rightarrow>
          (case recover env responseText of
             None \<Rightarrow> Inl (insufficient 0)
           | Some testCases \<Rightarrow>
               if length testCases < 4 then Inl (insufficient (length testCases))
               else Inr (slice12 (pad (load testCases)))))"

subsection \<open>The catch block: classifying the error\<close>

definition apiData :: "err \<Rightarrow> json" where
  "apiData e = or_else (response_data e) (or_else (data e) JNull)"

definition isQuota :: "env \<Rightarrow> err \<Rightarrow> bool" where
  "isQuota env e =
     (test_ci ''429'' (message e) \<or> test_ci ''Too Many Requests'' (message e)
      \<or> test_ci ''quota'' (message e)
      \<or> (truthy (apiData e) \<and> test_ci ''quota'' (json_stringify env (apiData e))))"

definition isAuth :: "err \<Rightarrow> bool" where
  "isAuth e =
     (test_ci ''API key'' (message e) \<or> test_ci ''authentication'' (message e)
      \<or> test_ci ''invalid key'' (message e))"

text \<open>
  The number of \<^verbatim>\<open>/([0-9]+(?:\.[0-9]+)?)s/\<close> matched from the head of \<open>s\<close>:
  all the digits there, a fraction when a dot and digits follow, and then the letter
  \<^verbatim>\<open>s\<close>.  Giving back digits never helps, since a digit or a dot is not the letter.
  With \<open>ci\<close> the letter is matched without regard to case.
\<close>

definition seconds_at :: "bool \<Rightarrow> string \<Rightarrow> string option" where
  "seconds_at ci s =
     (let ds = takeWhile is_digit s; r = dropWhile is_digit s;
          is_s = (\<lambda>c. c = CHR ''s'' \<or> (ci \<and> c = CHR ''S''))
      in if ds = [] then None
         else case r of
                [] \<Rightarrow> None
              | c # r' \<Rightarrow>
                  if c = CHR ''.'' then
                    (let fs = takeWhile is_digit r' in
                     case dropWhile is_digit r' of
                       [] \<Rightarrow> None
                     | u # _ \<Rightarrow> if fs \<noteq> [] \<and> is_s u then Some (ds @ CHR ''.'' # fs) else None)
                  else if is_s c then Some ds else None)"

fun seconds_match :: "string \<Rightarrow> string option" where
  "seconds_match [] = None"
| "seconds_match (c # cs) =
     (case seconds_at False (c # cs) of
        Some m \<Rightarrow> Some m
      | None \<Rightarrow> seconds_match cs)"

text \<open>
  The first group of
  \<^verbatim>\<open>/\"retryDelay\"\s*[:]\s*\"?([0-9]+(?:\.[0-9]+)?)s\"?/i\<close>.
\<close>

definition retryDelay_at :: "string \<Rightarrow> string option" where
  "retryDelay_at s =
     (if startsWith (toUpperCase s) (CHR 0x22 # ''RETRYDELAY'' @ [CHR 0x22]) then
        (case dropWhile is_space (drop 12 s) of
           [] \<Rightarrow> None
         | c # r \<Rightarrow>
             if c \<noteq> CHR '':'' then None
             else (let r1 = dropWhile is_space r;
                       r2 = (if startsWith r1 [CHR 0x22] then drop 1 r1 else r1)
                   in seconds_at True r2))
      else None)"

fun retryDelay_match :: "string \<Rightarrow> string option" where
  "retryDelay_match [] = None"
| "retryDelay_match (c # cs) =
     (case retryDelay_at (c # cs) of
        Some m \<Rightarrow> Some m
      | None \<Rightarrow> retryDelay_match cs)"

text \<open>\<^verbatim>\<open>Math.ceil(parseFloat(s) * 1000)\<close>, \<open>None\<close> for NaN.\<close>

definition ceil_ms :: "env \<Rightarrow> string \<Rightarrow> int option" where
  "ceil_ms env s = map_option (\<lambda>r. \<lceil>r * 1000\<rceil>) (parse_float env s)"

text \<open>Whether \<^verbatim>\<open>retryDelayMs\<close> is truthy: neither null, NaN nor 0.\<close>

definition delay_set :: "int option \<Rightarrow> bool" where
  "delay_set d = (case d of Some n \<Rightarrow> n \<noteq> 0 | None \<Rightarrow> False)"

definition retryDelayMs :: "env \<Rightarrow> err \<Rightarrow> int option" where
  "retryDelayMs env e =
     (if truthy (apiData e) then
        (let d1 = (case get_prop (apiData e) ''retryDelay'' of
                     Some v \<Rightarrow>
                       if truthy v then
                         (case seconds_match (to_string v) of
                            Some m \<Rightarrow> ceil_ms env m
                          | None \<Rightarrow> None)
                       else None
                   | None \<Rightarrow> None);
             d2 = (case retryDelay_match (json_stringify env (apiData e)) of
                     Some m \<Rightarrow> if \<not> delay_set d1 then ceil_ms env m else d1
                   | None \<Rightarrow> d1);
             retryAfterHeader =
               (if is_truthy (response_retry_after e) then response_retry_after e
                else retry_after e)
         in if \<not> delay_set d2 \<and> is_truthy retryAfterHeader then
              (case retryAfterHeader of
                 Some h \<Rightarrow>
                   (case ceil_ms env (to_string h) of
                      Some ms \<Rightarrow> Some ms
                    | None \<Rightarrow> d2)
               | None \<Rightarrow> d2)
            else d2)
      else None)"

definition freeTierDisabled :: "env \<Rightarrow> err \<Rightarrow> bool" where
  "freeTierDisabled env e =
     (truthy (apiData e) \<and>
      (let ad = toLowerCase (json_stringify env (apiData e)) in
       str_includes ad (CHR 0x22 # ''limit'' @ [CHR 0x22] @ '':0'')
       \<or> str_includes ad ''limit: 0''
       \<or> (str_includes ad ''generate_content_free_tier_requests'' \<and> str_includes ad ''limit: 0'')))"

definition USE_IMMEDIATE_FALLBACK_ON_QUOTA :: bool where
  "USE_IMMEDIATE_FALLBACK_ON_QUOTA = False"

definition MAX_RETRY_DELAY_MS :: int where
  "MAX_RETRY_DELAY_MS = 60 * 1000"

text \<open>\<^verbatim>\<open>Math.min(1000 * Math.pow(2, attempt), 5000)\<close> and \<^verbatim>\<open>Math.floor(Math.random() * n)\<close>.\<close>

definition backoff_base :: "nat \<Rightarrow> int" where
  "backoff_base attempt = min (1000 * 2 ^ attempt) 5000"

definition jitter :: "env \<Rightarrow> nat \<Rightarrow> int \<Rightarrow> int" where
  "jitter env attempt n = \<lfloor>random env attempt * of_int n\<rfloor>"

text \<open>
  What the catch block does with the error of one attempt: return a batch, throw, or go
  to the next turn of the loop, after a wait or (for another error in the last attempt)
  without one.
\<close>

datatype step = Return batch | Throw err | Continue int | Proceed

definition on_error :: "env \<Rightarrow> nat \<Rightarrow> nat \<Rightarrow> err \<Rightarrow> step" where
  "on_error env maxRetries attempt e =
     (if isQuota env e then
        (if freeTierDisabled env e then Return generateFallbackTestCases
         else if USE_IMMEDIATE_FALLBACK_ON_QUOTA then Return generateFallbackTestCases
         else (let backoff =
                     Continue (min (backoff_base attempt + jitter env attempt 1000) MAX_RETRY_DELAY_MS)
               in case retryDelayMs env e of
                    Some d \<Rightarrow>
                      if d \<noteq> 0 \<and> d > 0 then Continue (min (d + 500) MAX_RETRY_DELAY_MS)
                      else backoff
                  | None \<Rightarrow> backoff))
      else if isAuth e then Throw e
      else if attempt < maxRetries then Continue (backoff_base attempt + jitter env attempt 300)
      else Proceed)"

subsection \<open>The retry loop\<close>

text \<open>
  The function returns a batch or throws.  The trace lists, in order, the model calls
  (by attempt number) and the waits (in milliseconds) it made.
\<close>

datatype completion = Returned batch | Thrown err

datatype event = Invoke nat | Wait int

function generateWithRetry_from :: "env \<Rightarrow> nat \<Rightarrow> nat \<Rightarrow> completion \<times> event list" where
  "generateWithRetry_from env maxRetries attempt =
     (if attempt \<le> maxRetries then
        (case attempt_try env attempt of
           Inr b \<Rightarrow> (Returned b, [Invoke attempt])
         | Inl e \<Rightarrow>
             (case on_error env maxRetries attempt e of
                Return b \<Rightarrow> (Returned b, [Invoke attempt])
              | Throw e' \<Rightarrow> (Thrown e', [Invoke attempt])
              | Continue w \<Rightarrow>
                  apsnd (\<lambda>tr. Invoke attempt # Wait w # tr)
                    (generateWithRetry_from env maxRetries (Suc attempt))
              | Proceed \<Rightarrow>
                  apsnd (\<lambda>tr. Invoke attempt # tr)
                    (generateWithRetry_from env maxRetries (Suc attempt))))
      else (Returned generateFallbackTestCases, []))"
  by pat_completeness auto
termination
  by (relation "measure (\<lambda>(env, maxRetries, attempt). Suc maxRetries - attempt)") auto

declare generateWithRetry_from.simps [simp del]

definition generateWithRetry :: "env \<Rightarrow> nat \<Rightarrow> completion \<times> event list" where
  "generateWithRetry env maxRetries = generateWithRetry_from env maxRetries 1"

text \<open>
  Whether attempt \<open>j\<close> ends in the next turn of the loop: its try block fails and the
  catch block neither returns nor throws.
\<close>

definition next_turn :: "env \<Rightarrow> nat \<Rightarrow> nat \<Rightarrow> bool" where
  "next_turn env maxRetries j =
     (case attempt_try env j of
        Inr b \<Rightarrow> False
      | Inl e \<Rightarrow>
          (case on_error env maxRetries j e of
             Continue w \<Rightarrow> True
           | Proceed \<Rightarrow> True
           | _ \<Rightarrow> False))"

text \<open>The cases of the batch a call returned; none when it threw.\<close>

definition returned_cases :: "completion \<Rightarrow> tcase list" where
  "returned_cases r = (case r of Returned b \<Rightarrow> cases b | Thrown e \<Rightarrow> [])"

section \<open>Validation of the specification\<close>

datatype verr = ValidationError string string | NotAFunction

definition containsPathTraversal :: "string \<Rightarrow> bool" where
  "containsPathTraversal input =
     (input \<noteq> [] \<and>
      (str_includes input ''../'' \<or> str_includes input [CHR ''.'', CHR ''.'', CHR 0x5C]
       \<or> list_ex (\<lambda>a. list_ex (\<lambda>b. str_includes input (a # ''..'' @ [b])) [CHR ''/'', CHR 0x5C])
            [CHR ''/'', CHR 0x5C]
       \<or> test_ci ''%2e%2e/'' input \<or> test_ci (''%2e%2e'' @ [CHR 0x5C]) input
       \<or> test_ci ''..%2f'' input
       \<or> test_ci ''etc/passwd'' input \<or> test_ci (''etc'' @ CHR 0x5C # ''passwd'') input
       \<or> test_ci ''windows/system'' input \<or> test_ci (''windows'' @ CHR 0x5C # ''system'') input))"

definition validMethods :: "string list" where
  "validMethods = [''GET'', ''POST'', ''PUT'', ''PATCH'', ''DELETE'', ''OPTIONS'', ''HEAD'']"

text \<open>
  \<^verbatim>\<open>method?.toUpperCase()\<close>: \<^verbatim>\<open>undefined\<close> for a missing or null method,
  a TypeError (no such function) for a value that is not a string.
\<close>

definition validateMethod :: "json option \<Rightarrow> verr + string" where
  "validateMethod m =
     (case m of
        None \<Rightarrow> Inl (ValidationError ''Invalid HTTP method'' ''method'')
      | Some JNull \<Rightarrow> Inl (ValidationError ''Invalid HTTP method'' ''method'')
      | Some (JStr text) \<Rightarrow>
          (let upper = toUpperCase text in
           if upper \<notin> set validMethods then Inl (ValidationError ''Invalid HTTP method'' ''method'')
           else Inr upper)
      | Some _ \<Rightarrow> Inl NotAFunction)"

definition validateEndpoint :: "json option \<Rightarrow> verr + string" where
  "validateEndpoint endpoint =
     (case endpoint of
        Some (JStr e) \<Rightarrow>
          if e = [] then Inl (ValidationError ''Endpoint is required'' ''endpoint'')
          else (let trimmed = trim e in
                if \<not> startsWith trimmed ''/'' then
                  Inl (ValidationError ''Endpoint must start with /'' ''endpoint'')
                else if length trimmed > 500 then
                  Inl (ValidationError ''Endpoint too long'' ''endpoint'')
                else if containsPathTraversal trimmed then
                  Inl (ValidationError ''Invalid endpoint pattern'' ''endpoint'')
                else Inr trimmed)
      | _ \<Rightarrow> Inl (ValidationError ''Endpoint is required'' ''endpoint''))"

record vspec =
  endpoint :: string
  http_method :: string
  headers :: json
  body :: json
  expected_response :: json

text \<open>The object literal that builds \<^verbatim>\<open>validatedSpec\<close>, its properties in order.\<close>

definition validate_spec :: "json \<Rightarrow> verr + vspec" where
  "validate_spec spec =
     (case validateEndpoint (get_prop spec ''endpoint'') of
        Inl e \<Rightarrow> Inl e
      | Inr ep \<Rightarrow>
          (case validateMethod (get_prop spec ''method'') of
             Inl e \<Rightarrow> Inl e
           | Inr m \<Rightarrow>
               Inr \<lparr>endpoint = ep, http_method = m,
                    headers = or_else (get_prop spec ''headers'') (JObj []),
                    body = or_else (get_prop spec ''body'') (JObj []),
                    expected_response = or_else (get_prop spec ''expected_response'') (JObj [])\<rparr>))"

definition vspec_json :: "vspec \<Rightarrow> json" where
  "vspec_json vs =
     JObj [(''endpoint'', JStr (endpoint vs)), (''method'', JStr (http_method vs)),
           (''headers'', headers vs), (''body'', body vs),
           (''expected_response'', expected_response vs)]"

section \<open>Patching the cases against the specification\<close>

datatype js_error = TypeError

text \<open>
  \<^verbatim>\<open>o.k = v\<close> in strict mode (the file is an ES module): a property of an object is
  set; a named property set on an array is not part of its JSON value; on a primitive or
  \<^verbatim>\<open>null\<close> the assignment throws.
\<close>

definition set_member :: "json \<Rightarrow> string \<Rightarrow> json \<Rightarrow> js_error + json" where
  "set_member obj k v =
     (case obj of
        JObj kvs \<Rightarrow> Inr (JObj (assign kvs k v))
      | JArr xs \<Rightarrow> Inr (JArr xs)
      | _ \<Rightarrow> Inl TypeError)"

definition delete_member :: "json \<Rightarrow> string \<Rightarrow> json" where
  "delete_member obj k = (case obj of JObj kvs \<Rightarrow> JObj (delete_key kvs k) | v \<Rightarrow> v)"

text \<open>\<^verbatim>\<open>{ ...v }\<close>: the own enumerable properties of \<open>v\<close>.\<close>

definition spread :: "json \<Rightarrow> (string \<times> json) list" where
  "spread v =
     (case v of
        JObj kvs \<Rightarrow> kvs
      | JArr xs \<Rightarrow> zip (map show_nat [0..<length xs]) xs
      | JStr s \<Rightarrow> zip (map show_nat [0..<length s]) (map (\<lambda>c. JStr [c]) s)
      | _ \<Rightarrow> [])"

definition methodsWithBody :: "string list" where
  "methodsWithBody = [''POST'', ''PUT'', ''PATCH'']"

definition xss_payload :: string where
  "xss_payload = ''<script>alert('' @ [CHR 0x27] @ ''XSS'' @ [CHR 0x27] @ '')</script>''"

definition sqli_payload :: string where
  "sqli_payload = ''test@test.com'' @ [CHR 0x27] @ '' OR '' @ [CHR 0x27] @ ''1''
                  @ [CHR 0x27] @ ''='' @ [CHR 0x27] @ ''1''"

text \<open>
  The body the patch assigns to a case of a body-bearing method, by the case's category
  and id; \<open>None\<close> when the category is none of the four and nothing is assigned.
\<close>

definition patched_body :: "vspec \<Rightarrow> json \<Rightarrow> json option" where
  "patched_body vs tc =
     (let category = get_prop tc ''category''; tid = get_prop tc ''id'' in
      if category = Some (JStr ''valid'') then Some (body vs)
      else if category = Some (JStr ''invalid'') then
        Some (JObj (if tid = Some (JStr ''TC_004'') then delete_key (spread (body vs)) ''name''
                    else if tid = Some (JStr ''TC_005'') then delete_key (spread (body vs)) ''email''
                    else if tid = Some (JStr ''TC_006'')
                      then assign (spread (body vs)) ''email'' (JStr ''notanemail'')
                    else [(''invalid_field'', JStr ''wrong data'')]))
      else if category = Some (JStr ''boundary'') then
        Some (JObj [(''name'', JStr (if tid = Some (JStr ''TC_008'') then [] else replicate 1000 (CHR ''a''))),
                    (''email'', if tid = Some (JStr ''TC_009'') then JStr []
                                else or_else (get_prop (body vs) ''email'') (JStr ''test@test.com''))])
      else if category = Some (JStr ''security'') then
        Some (JObj [(''name'', JStr xss_payload), (''email'', JStr sqli_payload)])
      else None)"

definition patched_status :: "vspec \<Rightarrow> json \<Rightarrow> int" where
  "patched_status vs tc =
     (if http_method vs \<in> set methodsWithBody then
        (if get_prop tc ''category'' = Some (JStr ''valid'')
         then (if http_method vs = ''POST'' then 201 else 200) else 400)
      else (if get_prop tc ''category'' = Some (JStr ''valid'') then 200 else 400))"

text \<open>
  The request object after the loop body's writes: method, endpoint and headers, then the
  body assigned (body-bearing method) or deleted (any other method).
\<close>

definition patch_request :: "vspec \<Rightarrow> json \<Rightarrow> json \<Rightarrow> js_error + json" where
  "patch_request vs tc r =
     (case set_member r ''method'' (JStr (http_method vs)) of
        Inl e \<Rightarrow> Inl e
      | Inr r1 \<Rightarrow>
     (case set_member r1 ''endpoint'' (JStr (endpoint vs)) of
        Inl e \<Rightarrow> Inl e
      | Inr r2 \<Rightarrow>
     (case set_member r2 ''headers'' (headers vs) of
        Inl e \<Rightarrow> Inl e
      | Inr r3 \<Rightarrow>
          if http_method vs \<in> set methodsWithBody then
            (case patched_body vs tc of
               Some b \<Rightarrow> set_member r3 ''body'' b
             | None \<Rightarrow> Inr r3)
          else Inr (delete_member r3 ''body''))))"

text \<open>
  One turn of \<^verbatim>\<open>for (const tc of testCases)\<close>.  Reading a property of
  \<^verbatim>\<open>null\<close> and assigning a property of a primitive throw; an array takes the
  assignments without a change to its JSON value.
\<close>

definition patch_case ::
  "vspec \<Rightarrow> (addr \<rightharpoonup> json) \<Rightarrow> addr \<Rightarrow> tcase \<Rightarrow> js_error + (tcase \<times> (addr \<rightharpoonup> json) \<times> addr)" where
  "patch_case vs st fr c =
     (case self c of
        JArr xs \<Rightarrow> Inr (c, st, fr)
      | JObj kvs \<Rightarrow>
          (case (case req c of
                   At a \<Rightarrow> Inr (kvs, a, st, fr)
                 | Inline \<Rightarrow>
                     if is_truthy (map_of kvs ''request'') then Inl TypeError
                     else Inr (assign kvs ''request'' (JObj []), fr, st(fr \<mapsto> JObj []), Suc fr))
           of
             Inl e \<Rightarrow> Inl e
           | Inr (kvs1, a, st1, fr1) \<Rightarrow>
               (case patch_request vs (JObj kvs) (case st1 a of Some r \<Rightarrow> r | None \<Rightarrow> JObj []) of
                  Inl e \<Rightarrow> Inl e
                | Inr r' \<Rightarrow>
                    (case set_member (or_else (map_of kvs1 ''expected_response'') (JObj []))
                            ''status'' (JNum (patched_status vs (JObj kvs))) of
                       Inl e \<Rightarrow> Inl e
                     | Inr er \<Rightarrow>
                         Inr (\<lparr>self = JObj (assign kvs1 ''expected_response'' er), req = At a\<rparr>,
                              st1(a \<mapsto> r'), fr1))))
      | _ \<Rightarrow> Inl TypeError)"

fun patch_loop ::
  "vspec \<Rightarrow> tcase list \<Rightarrow> (addr \<rightharpoonup> json) \<Rightarrow> addr \<Rightarrow> js_error + batch" where
  "patch_loop vs [] st fr = Inr \<lparr>cases = [], store = st, fresh = fr\<rparr>"
| "patch_loop vs (c # cs) st fr =
     (case patch_case vs st fr c of
        Inl e \<Rightarrow> Inl e
      | Inr (c', st', fr') \<Rightarrow>
          (case patch_loop vs cs st' fr' of
             Inl e \<Rightarrow> Inl e
           | Inr b \<Rightarrow> Inr (b\<lparr>cases := c' # cases b\<rparr>)))"

definition patch_all :: "vspec \<Rightarrow> batch \<Rightarrow> js_error + batch" where
  "patch_all vs b = patch_loop vs (cases b) (store b) (fresh b)"

text \<open>The batch after the patching step; the empty batch when the step throws.\<close>

definition after_patch :: "vspec \<Rightarrow> batch \<Rightarrow> batch" where
  "after_patch vs b = (case patch_all vs b of Inr b' \<Rightarrow> b' | Inl e \<Rightarrow> empty_batch)"

subsection \<open>What the patching step establishes\<close>

definition is_array :: "json \<Rightarrow> bool" where
  "is_array v = (case v of JArr xs \<Rightarrow> True | _ \<Rightarrow> False)"

text \<open>
  A request object agrees with the specification: it carries the specification's method,
  endpoint and headers and, for a method without a body, no body property.  (An array in
  the place of the object takes the assignments without showing them.)
\<close>

definition request_ok :: "vspec \<Rightarrow> json \<Rightarrow> bool" where
  "request_ok vs r =
     (is_array r
      \<or> (get_prop r ''method'' = Some (JStr (http_method vs))
         \<and> get_prop r ''endpoint'' = Some (JStr (endpoint vs))
         \<and> get_prop r ''headers'' = Some (headers vs)
         \<and> (http_method vs \<in> set methodsWithBody \<or> get_prop r ''body'' = None)))"

text \<open>
  The expected status of a case of the given category: 201 for a valid case of a POST,
  200 for a valid case of any other method, 400 for every other case.  The specification's
  own \<^verbatim>\<open>expected_response\<close> is not consulted.
\<close>

definition status_ok :: "vspec \<Rightarrow> json option \<Rightarrow> json \<Rightarrow> bool" where
  "status_ok vs category er =
     (is_array er
      \<or> get_prop er ''status''
          = Some (JNum (if category = Some (JStr ''valid'')
                        then (if http_method vs = ''POST'' then 201 else 200)
                        else 400)))"

text \<open>
  The relation between a case \<open>c\<close> before the step and the case \<open>c'\<close> in its place
  after it, in the store \<open>st\<close> the step leaves and with the cases \<open>later\<close> that
  follow it in the batch.
\<close>

definition patched_case ::
  "vspec \<Rightarrow> tcase \<Rightarrow> tcase \<Rightarrow> (addr \<rightharpoonup> json) \<Rightarrow> tcase list \<Rightarrow> bool" where
  "patched_case vs c c' st later =
     (case self c of
        JArr xs \<Rightarrow> c' = c
      | JObj kvs \<Rightarrow>
          (\<exists>kvs' a r er.
              self c' = JObj kvs' \<and> req c' = At a \<and> st a = Some r
              \<and> map_of kvs' ''id'' = map_of kvs ''id''
              \<and> map_of kvs' ''category'' = map_of kvs ''category''
              \<and> map_of kvs' ''expected_response'' = Some er
              \<and> status_ok vs (map_of kvs ''category'') er
              \<and> request_ok vs r
              \<and> (http_method vs \<in> set methodsWithBody
                  \<and> map_of kvs ''category'' = Some (JStr ''valid'')
                  \<and> list_all (\<lambda>l. req l \<noteq> At a) later
                  \<longrightarrow> is_array r \<or> get_prop r ''body'' = Some (body vs)))
      | _ \<Rightarrow> False)"

section \<open>The cache of generated answers\<close>

record summary =
  total :: nat
  valid :: nat
  invalid :: nat
  boundary :: nat
  security :: nat

text \<open>
  The answer of a generation request; \<open>cached\<close> stands for the marker
  \<^verbatim>\<open>cached: true\<close>, which only an answer served from the cache carries.
\<close>

record response =
  success :: bool
  testCases :: "json list"
  summary :: summary
  resp_message :: string
  cached :: bool

text \<open>
  Modelled from the spec: the time-bounded mapping \<^verbatim>\<open>generatedCache\<close>, an
  instance of the node-cache package, whose code is not among the sources.  The spec
  describes it as a plain mapping with a stored expiry timestamp per entry, a fixed
  lifetime of one hour from insertion, checked lazily on lookup, and entries copied out on
  read.  Times are in milliseconds.
\<close>

type_synonym cache = "string \<rightharpoonup> (response \<times> nat)"

text \<open>Modelled from the spec: the fixed TTL of one hour (\<^verbatim>\<open>stdTTL: 60 * 60\<close> seconds).\<close>

definition TTL_MS :: nat where
  "TTL_MS = 60 * 60 * 1000"

text \<open>
  Modelled from the spec: lookup at time \<open>now\<close>.  An entry past its expiry time is
  evicted and the lookup is a miss.
\<close>

definition cache_get :: "cache \<Rightarrow> nat \<Rightarrow> string \<Rightarrow> response option \<times> cache" where
  "cache_get c now k =
     (case c k of
        None \<Rightarrow> (None, c)
      | Some (v, expires) \<Rightarrow> if expires < now then (None, c(k := None)) else (Some v, c))"

text \<open>Modelled from the spec: insertion at time \<open>now\<close>; the last writer wins.\<close>

definition cache_set :: "cache \<Rightarrow> nat \<Rightarrow> string \<Rightarrow> response \<Rightarrow> cache" where
  "cache_set c now k v = c(k \<mapsto> (v, now + TTL_MS))"

section \<open>The handler of /generate-tests\<close>

definition count_category :: "tcase list \<Rightarrow> string \<Rightarrow> nat" where
  "count_category cs cat = length (filter (\<lambda>c. get_prop (self c) ''category'' = Some (JStr cat)) cs)"

definition summarize :: "batch \<Rightarrow> summary" where
  "summarize b =
     \<lparr>total = length (cases b),
      valid = count_category (cases b) ''valid'',
      invalid = count_category (cases b) ''invalid'',
      boundary = count_category (cases b) ''boundary'',
      security = count_category (cases b) ''security''\<rparr>"

datatype failure =
    INVALID_SPEC
  | VALIDATION_ERROR verr
  | GENERATION_ERROR err
  | PATCH_ERROR js_error

datatype reply = Json response | Failure failure

text \<open>
  One request: the cache is read at time \<open>t_lookup\<close> and written at time \<open>t_store\<close>.
  The result is the reply, the cache afterwards, and the trace of the generation engine
  (empty when it was not called).  The engine is called with its default of 3 attempts;
  the prompt it sends is text the service is free to answer in any way, so the outcomes of
  the model calls are those of \<open>env\<close>.
\<close>

definition is_object :: "json \<Rightarrow> bool" where
  "is_object v = (case v of JObj kvs \<Rightarrow> True | JArr xs \<Rightarrow> True | _ \<Rightarrow> False)"

definition generate_tests ::
  "env \<Rightarrow> nat \<Rightarrow> nat \<Rightarrow> cache \<Rightarrow> json option \<Rightarrow> reply \<times> cache \<times> event list" where
  "generate_tests env t_lookup t_store c spec =
     (if \<not> is_truthy spec \<or> \<not> is_object (or_else spec JNull) then (Failure INVALID_SPEC, c, [])
      else
        (case validate_spec (or_else spec JNull) of
           Inl e \<Rightarrow> (Failure (VALIDATION_ERROR e), c, [])
         | Inr validatedSpec \<Rightarrow>
             (let cacheKey = json_stringify env (vspec_json validatedSpec) in
              case cache_get c t_lookup cacheKey of
                (Some hit, c') \<Rightarrow> (Json (hit\<lparr>cached := True\<rparr>), c', [])
              | (None, c') \<Rightarrow>
                  (case generateWithRetry env 3 of
                     (Thrown e, tr) \<Rightarrow> (Failure (GENERATION_ERROR e), c', tr)
                   | (Returned generated, tr) \<Rightarrow>
                       (case patch_all validatedSpec generated of
                          Inl e \<Rightarrow> (Failure (PATCH_ERROR e), c', tr)
                        | Inr patched \<Rightarrow>
                            (let responseData =
                                   \<lparr>success = True,
                                    testCases = view_all patched,
                                    summary = summarize patched,
                                    resp_message =
                                      ''Generated '' @ show_nat (length (cases patched)) @ '' test cases'',
                                    cached = False\<rparr>
                             in (Json responseData, cache_set c' t_store cacheKey responseData, tr)))))))"

section \<open>Executing test cases\<close>

text \<open>
  A test case as the executor reads it (the TestCase of the data model), the configuration
  it hands to the HTTP client, and what the client answers: a response, whatever its
  status (\<^verbatim>\<open>validateStatus: () => true\<close>), or a thrown transport error.
\<close>

record exec_request =
  rq_method :: string
  rq_endpoint :: string
  rq_headers :: "json option"
  rq_body :: "json option"

record expectation =
  status :: int
  body_contains :: "string list option"
  body_not_contains :: "string list option"

record test =
  t_id :: string
  t_category :: string
  t_description :: string
  request :: exec_request
  expected :: expectation
















section \<open>The handler of /run-tests\<close>














section \<open>Concrete inputs\<close>




text \<open>
  Errors of the model call, model behaviours, and a platform for them.  The platform's
  \<^verbatim>\<open>JSON.parse\<close> knows one text, a compact array of four cases whose ids and
  categories are not the ones the prompt asks for; its \<^verbatim>\<open>parseFloat\<close> knows
  the numerals the examples use; its \<^verbatim>\<open>Math.random()\<close> returns one quarter.
\<close>

definition plain_error :: "string \<Rightarrow> err" where
  "plain_error m =
     \<lparr>message = m, response_data = None, data = None,
      response_retry_after = None, retry_after = None\<rparr>"

definition payload_error :: "string \<Rightarrow> json \<Rightarrow> err" where
  "payload_error m payload =
     \<lparr>message = m, response_data = Some payload, data = None,
      response_retry_after = None, retry_after = None\<rparr>"

definition four_cases :: "json list" where
  "four_cases =
     [JObj [(''id'', JStr ''A''), (''category'', JStr ''smoke''),
            (''request'', JObj [(''method'', JStr ''GET'')])],
      JObj [(''id'', JStr ''B'')],
      JObj [(''id'', JStr ''C'')],
      JObj [(''id'', JStr ''D'')]]"

definition four_cases_text :: string where
  \<open>four_cases_text =
     ''[{"id":"A","category":"smoke","request":{"method":"GET"}},{"id":"B"},{"id":"C"},{"id":"D"}]''\<close>

definition demo_env :: "(nat \<Rightarrow> outcome) \<Rightarrow> env" where
  "demo_env g =
     \<lparr>json_parse = map_of [(four_cases_text, JArr four_cases)],
      json_stringify = stringify,
      parse_float = map_of [(''0'', 0), (''2'', 2), (''120'', 120)],
      generateContent = g,
      random = (\<lambda>k. 1 / 4)\<rparr>"

definition zero_quota_payload :: json where
  "zero_quota_payload =
     JObj [(''error'',
            JObj [(''code'', JNum 429),
                  (''message'', JStr ''Quota exceeded for metric: generate_content_free_tier_requests, limit: 0''),
                  (''status'', JStr ''RESOURCE_EXHAUSTED'')])]"


definition model_down :: "nat \<Rightarrow> outcome" where
  "model_down k = Failed (plain_error ''fetch failed'')"


definition model_zero_quota :: "nat \<Rightarrow> outcome" where
  "model_zero_quota k =
     (if k = 2 then Failed (payload_error ''[429 Too Many Requests]'' zero_quota_payload)
      else Failed (plain_error ''fetch failed''))"



definition model_four :: "nat \<Rightarrow> outcome" where
  "model_four k = Responded four_cases_text"

text \<open>
  A specification as a client sends it, a variant of it that differs in the case of the
  method and in white space around the endpoint, and what both validate to.
\<close>

definition demo_spec :: "(string \<times> json) list" where
  "demo_spec =
     [(''endpoint'', JStr ''/users''), (''method'', JStr ''POST''),
      (''headers'', JObj [(''Content-Type'', JStr ''application/json'')]),
      (''body'', JObj [(''name'', JStr ''John''), (''email'', JStr ''john@example.com'')]),
      (''expected_response'', JObj [(''status'', JNum 201)])]"

definition demo_spec_variant :: "(string \<times> json) list" where
  "demo_spec_variant =
     [(''endpoint'', JStr ''  /users ''), (''method'', JStr ''post''),
      (''headers'', JObj [(''Content-Type'', JStr ''application/json'')]),
      (''body'', JObj [(''name'', JStr ''John''), (''email'', JStr ''john@example.com'')]),
      (''expected_response'', JObj [(''status'', JNum 201)])]"

definition demo_vspec :: vspec where
  "demo_vspec =
     \<lparr>endpoint = ''/users'', http_method = ''POST'',
      headers = JObj [(''Content-Type'', JStr ''application/json'')],
      body = JObj [(''name'', JStr ''John''), (''email'', JStr ''john@example.com'')],
      expected_response = JObj [(''status'', JNum 201)]\<rparr>"

text \<open>
  The validated specification with a success status of 200 asked for, and a model answer
  of four well-formed cases, the first with a request object.
\<close>

definition demo_vspec_200 :: vspec where
  "demo_vspec_200 = demo_vspec\<lparr>expected_response := JObj [(''status'', JNum 200)]\<rparr>"

definition short_cases :: "json list" where
  "short_cases =
     [JObj [(''id'', JStr ''TC_001''), (''category'', JStr ''valid''),
            (''description'', JStr ''Valid request with all required fields''),
            (''request'',
               JObj [(''method'', JStr ''POST''), (''endpoint'', JStr ''/users''),
                     (''headers'', JObj [(''Content-Type'', JStr ''application/json'')]),
                     (''body'', JObj [(''name'', JStr ''John''), (''email'', JStr ''john@example.com'')])]),
            (''expected_response'', JObj [(''status'', JNum 201)])],
      JObj [(''id'', JStr ''TC_002''), (''category'', JStr ''valid'')],
      JObj [(''id'', JStr ''TC_003''), (''category'', JStr ''valid'')],
      JObj [(''id'', JStr ''TC_004''), (''category'', JStr ''invalid'')]]"


section \<open>Properties of the executor\<close>








section \<open>Properties of the extractor\<close>









lemma indexOf_char_split:
  "indexOf s [c] = Some j \<Longrightarrow> \<exists>post. s = take j s @ c # post"
proof (induction s arbitrary: j)
  case Nil
  then show ?case by simp
next
  case (Cons x s)
  show ?case
  proof (cases "x = c")
    case True
    with Cons.prems show ?thesis by (simp add: startsWith_def)
  next
    case False
    with Cons.prems obtain j' where j: "j = Suc j'" "indexOf s [c] = Some j'"
      by (auto simp: startsWith_def)
    from Cons.IH [OF j(2)] obtain post where "s = take j' s @ c # post" by blast
    then show ?thesis using j(1) by (metis append_Cons take_Suc_Cons)
  qed
qed











section \<open>Properties of the generation engine\<close>

lemma push_autofill_cases:
  "\<exists>c r. cases (push_autofill b) = cases b @ [c] \<and> self c = autofill_case (Suc (length (cases b))) r"
  by (auto simp: push_autofill_def push_own_def push_shared_def push_inline_def Let_def
           split: list.splits request_ref.splits)

lemma pad_shape:
  "length (cases (pad b)) = max 12 (length (cases b))
   \<and> take (length (cases b)) (cases (pad b)) = cases b
   \<and> (\<forall>i. length (cases b) \<le> i \<and> i < 12 \<longrightarrow> (\<exists>r. self (cases (pad b) ! i) = autofill_case (Suc i) r))"
proof (induction b rule: pad.induct)
  case (1 b)
  show ?case
  proof (cases "length (cases b) < 12")
    case False
    then show ?thesis by (auto simp: pad.simps [of b])
  next
    case True
    obtain c r where c: "cases (push_autofill b) = cases b @ [c]"
      and r: "self c = autofill_case (Suc (length (cases b))) r"
      using push_autofill_cases by blast
    have p: "pad b = pad (push_autofill b)"
      using True by (simp add: pad.simps [of b])
    note ih = "1.IH" [OF True]
    have len: "length (cases (pad b)) = max 12 (length (cases b))"
      using ih True c by (simp add: p)
    have tk: "take (Suc (length (cases b))) (cases (pad b)) = cases b @ [c]"
      using ih c by (simp add: p)
    have pre: "take (length (cases b)) (cases (pad b)) = cases b"
    proof -
      have "take (length (cases b)) (take (Suc (length (cases b))) (cases (pad b))) = cases b"
        unfolding tk by simp
      then show ?thesis by (simp add: min_def)
    qed
    have new: "\<exists>r. self (cases (pad b) ! i) = autofill_case (Suc i) r"
      if "length (cases b) \<le> i \<and> i < 12" for i
    proof (cases "i = length (cases b)")
      case True
      have "cases (pad b) ! i = take (Suc (length (cases b))) (cases (pad b)) ! i"
        using True by simp
      also have "\<dots> = c" unfolding tk using True by simp
      finally show ?thesis using r True by auto
    next
      case False
      with that have "length (cases (push_autofill b)) \<le> i \<and> i < 12" using c by simp
      with ih show ?thesis by (simp add: p)
    qed
    from len pre new show ?thesis by blast
  qed
qed

lemma load_case_cases:
  "map self (cases (load_case b tc)) = map self (cases b) @ [tc]"
  by (auto simp: load_case_def push_own_def push_inline_def split: option.splits json.splits)

lemma foldl_load_case:
  "map self (cases (foldl load_case b tcs)) = map self (cases b) @ tcs"
  by (induction tcs arbitrary: b) (simp_all add: load_case_cases)

lemma load_self: "map self (cases (load tcs)) = tcs"
  by (simp add: load_def foldl_load_case empty_batch_def)

lemma attempt_try_shape:
  assumes "attempt_try env k = Inr b"
  shows "\<exists>rt tcs. generateContent env k = Responded rt \<and> recover env rt = Some tcs
           \<and> 4 \<le> length tcs \<and> length (cases b) = 12
           \<and> (\<forall>i<12. if i < length tcs then self (cases b ! i) = tcs ! i
                       else \<exists>r. self (cases b ! i) = autofill_case (Suc i) r)"
proof -
  from assms obtain rt tcs where g: "generateContent env k = Responded rt"
    and rc: "recover env rt = Some tcs" and len: "4 \<le> length tcs"
    and b: "b = slice12 (pad (load tcs))"
    by (auto simp: attempt_try_def split: outcome.splits option.splits if_splits)
  define l where "l = load tcs"
  have ll: "length (cases l) = length tcs"
    using load_self [of tcs] unfolding l_def by (metis length_map)
  note ps = pad_shape [of l]
  have n12: "length (cases b) = 12"
    using ps by (simp add: b slice12_def l_def [symmetric])
  have each: "if i < length tcs then self (cases b ! i) = tcs ! i
              else \<exists>r. self (cases b ! i) = autofill_case (Suc i) r" if "i < 12" for i
  proof (cases "i < length tcs")
    case True
    have "cases (pad l) ! i = take (length (cases l)) (cases (pad l)) ! i"
      using True ll by simp
    also have "\<dots> = cases l ! i" using ps by simp
    finally have "self (cases (pad l) ! i) = map self (cases l) ! i"
      using True ll by simp
    then have "self (cases (pad l) ! i) = tcs ! i"
      using load_self [of tcs] by (simp add: l_def)
    then show ?thesis using True that by (simp add: b slice12_def l_def [symmetric])
  next
    case False
    then have "\<exists>r. self (cases (pad l) ! i) = autofill_case (Suc i) r"
      using ps that ll by auto
    then show ?thesis using False that by (simp add: b slice12_def l_def [symmetric])
  qed
  from g rc len n12 each show ?thesis by blast
qed

lemma foldl_push_own:
  "map self (cases (foldl (\<lambda>b i. push_own (f i) r b) b0 xs)) = map self (cases b0) @ map f xs"
  by (induction xs arbitrary: b0) (simp_all add: push_own_def)

lemma fallback_selfs:
  "map self (cases generateFallbackTestCases) = map fallback_case [1..<13]"
  by (simp add: generateFallbackTestCases_def foldl_push_own empty_batch_def)

lemma returned_shape:
  "fst (generateWithRetry_from env M k) = Returned b \<Longrightarrow>
   b = generateFallbackTestCases \<or> (\<exists>j. k \<le> j \<and> j \<le> M \<and> attempt_try env j = Inr b)"
proof (induction env M k rule: generateWithRetry_from.induct)
  case (1 env M k)
  show ?case
  proof (cases "k \<le> M")
    case False
    with "1.prems" show ?thesis by (simp add: generateWithRetry_from.simps [of env M k])
  next
    case True
    show ?thesis
    proof (cases "attempt_try env k")
      case (Inr b')
      with True "1.prems" show ?thesis
        by (auto simp: generateWithRetry_from.simps [of env M k])
    next
      case (Inl e)
      show ?thesis
      proof (cases "on_error env M k e")
        case (Return b')
        then have "b' = generateFallbackTestCases"
          by (auto simp: on_error_def Let_def split: if_splits option.splits)
        with True Inl Return "1.prems" show ?thesis
          by (simp add: generateWithRetry_from.simps [of env M k])
      next
        case (Throw e')
        with True Inl "1.prems" show ?thesis
          by (simp add: generateWithRetry_from.simps [of env M k])
      next
        case (Continue w)
        with True Inl "1.prems" have "fst (generateWithRetry_from env M (Suc k)) = Returned b"
          by (simp add: generateWithRetry_from.simps [of env M k])
        from "1.IH"(1) [OF True Inl Continue this] show ?thesis
          by (metis Suc_leD)
      next
        case Proceed
        with True Inl "1.prems" have "fst (generateWithRetry_from env M (Suc k)) = Returned b"
          by (simp add: generateWithRetry_from.simps [of env M k])
        from "1.IH"(2) [OF True Inl Proceed this] show ?thesis
          by (metis Suc_leD)
      qed
    qed
  qed
qed

lemma on_error_Throw:
  "on_error env M k e = Throw e' \<Longrightarrow> e' = e \<and> isAuth e \<and> \<not> isQuota env e"
  by (auto simp: on_error_def Let_def split: if_splits option.splits)

lemma on_error_Return:
  "on_error env M k e = Return b \<Longrightarrow>
   b = generateFallbackTestCases \<and> isQuota env e \<and> freeTierDisabled env e"
  by (auto simp: on_error_def Let_def USE_IMMEDIATE_FALLBACK_ON_QUOTA_def
           split: if_splits option.splits)


lemma on_error_free_tier:
  "isQuota env e \<Longrightarrow> freeTierDisabled env e \<Longrightarrow>
   on_error env M k e = Return generateFallbackTestCases"
  by (simp add: on_error_def)





lemma all_fail_fallback:
  "(\<forall>j. k \<le> j \<and> j \<le> M \<longrightarrow> (\<exists>e. attempt_try env j = Inl e \<and> \<not> (isAuth e \<and> \<not> isQuota env e)))
   \<Longrightarrow> fst (generateWithRetry_from env M k) = Returned generateFallbackTestCases"
proof (induction env M k rule: generateWithRetry_from.induct)
  case (1 env M k)
  show ?case
  proof (cases "k \<le> M")
    case False
    then show ?thesis by (simp add: generateWithRetry_from.simps [of env M k])
  next
    case True
    with "1.prems" obtain e where e: "attempt_try env k = Inl e" "\<not> (isAuth e \<and> \<not> isQuota env e)"
      by blast
    have rest: "\<forall>j. Suc k \<le> j \<and> j \<le> M \<longrightarrow>
                 (\<exists>e. attempt_try env j = Inl e \<and> \<not> (isAuth e \<and> \<not> isQuota env e))"
      using "1.prems" by (metis Suc_leD)
    show ?thesis
    proof (cases "on_error env M k e")
      case (Return b)
      with on_error_Return [OF Return] True e show ?thesis
        by (simp add: generateWithRetry_from.simps [of env M k])
    next
      case (Throw e')
      with on_error_Throw [OF Throw] e show ?thesis by blast
    next
      case (Continue w)
      from "1.IH"(1) [OF True e(1) Continue rest] True e(1) Continue show ?thesis
        by (simp add: generateWithRetry_from.simps [of env M k])
    next
      case Proceed
      from "1.IH"(2) [OF True e(1) Proceed rest] True e(1) Proceed show ?thesis
        by (simp add: generateWithRetry_from.simps [of env M k])
    qed
  qed
qed

lemma run_prefix:
  assumes "\<forall>j. k0 \<le> j \<and> j < k \<longrightarrow> next_turn env M j" and "k0 \<le> k" and "k \<le> Suc M"
  shows "\<exists>pre. generateWithRetry_from env M k0
                 = (fst (generateWithRetry_from env M k), pre @ snd (generateWithRetry_from env M k))
               \<and> (\<forall>j\<ge>k. Invoke j \<notin> set pre)"
  using assms
proof (induction "k - k0" arbitrary: k0)
  case 0
  then have "k0 = k" by simp
  then have "generateWithRetry_from env M k0
               = (fst (generateWithRetry_from env M k), [] @ snd (generateWithRetry_from env M k))
             \<and> (\<forall>j\<ge>k. Invoke j \<notin> set [])"
    by simp
  then show ?case by blast
next
  case (Suc n)
  then have lt: "k0 < k" and le: "k0 \<le> M" by simp_all
  from Suc.prems(1) lt have nt: "next_turn env M k0" by simp
  have "n = k - Suc k0" using Suc.hyps(2) by simp
  from Suc.hyps(1) [OF this] Suc.prems lt obtain pre where
    pre: "generateWithRetry_from env M (Suc k0)
            = (fst (generateWithRetry_from env M k), pre @ snd (generateWithRetry_from env M k))"
      "\<forall>j\<ge>k. Invoke j \<notin> set pre"
    by (metis Suc_leD Suc_leI)
  from nt obtain e where e: "attempt_try env k0 = Inl e"
    by (auto simp: next_turn_def split: sum.splits)
  show ?case
  proof (cases "on_error env M k0 e")
    case (Continue w)
    have "generateWithRetry_from env M k0
            = (fst (generateWithRetry_from env M k),
               (Invoke k0 # Wait w # pre) @ snd (generateWithRetry_from env M k))"
      using le e Continue pre(1) by (simp add: generateWithRetry_from.simps [of env M k0])
    moreover have "\<forall>j\<ge>k. Invoke j \<notin> set (Invoke k0 # Wait w # pre)"
      using pre(2) lt by auto
    ultimately show ?thesis by blast
  next
    case Proceed
    have "generateWithRetry_from env M k0
            = (fst (generateWithRetry_from env M k),
               (Invoke k0 # pre) @ snd (generateWithRetry_from env M k))"
      using le e Proceed pre(1) by (simp add: generateWithRetry_from.simps [of env M k0])
    moreover have "\<forall>j\<ge>k. Invoke j \<notin> set (Invoke k0 # pre)"
      using pre(2) lt by auto
    ultimately show ?thesis by blast
  next
    case (Return b)
    with nt e show ?thesis by (simp add: next_turn_def)
  next
    case (Throw e')
    with nt e show ?thesis by (simp add: next_turn_def)
  qed
qed

lemma fallback_length: "length (cases generateFallbackTestCases) = 12"
proof -
  have "length (map self (cases generateFallbackTestCases)) = length (map fallback_case [1..<13])"
    by (simp only: fallback_selfs)
  then show ?thesis by simp
qed

lemma fallback_ids:
  "i < 12 \<Longrightarrow>
   get_prop (self (cases generateFallbackTestCases ! i)) ''id'' = Some (JStr (tc_id (Suc i)))
   \<and> get_prop (self (cases generateFallbackTestCases ! i)) ''category'' = Some (JStr (band (Suc i)))"
proof -
  assume i: "i < 12"
  note len = fallback_length
  have "self (cases generateFallbackTestCases ! i) = map self (cases generateFallbackTestCases) ! i"
    using i len by simp
  also have "\<dots> = fallback_case (Suc i)"
    using i by (simp add: fallback_selfs)
  finally show ?thesis by (simp add: fallback_case_def get_prop_def)
qed

lemma autofill_ids:
  "get_prop (autofill_case n r) ''id'' = Some (JStr (tc_id n))
   \<and> get_prop (autofill_case n r) ''category'' = Some (JStr (band n))"
  by (simp add: autofill_case_def get_prop_def)

text \<open>
  C1, amended.  A batch that \<^verbatim>\<open>generateWithRetry\<close> returns has exactly 12 cases.
  It is either the fallback batch, whose ids are TC_001 to TC_012 in order and whose
  categories follow the bands, or it comes from an attempt in which the model's text
  decoded to an array of at least 4 elements: then the first elements of the batch are the
  model's own, unchanged, with whatever ids and categories they carry, and only the cases
  the engine adds after them have the id and the category of their position.
\<close>

theorem generateWithRetry_batch_shape:
  assumes "fst (generateWithRetry env maxRetries) = Returned b"
  shows "length (cases b) = 12
       \<and> ((b = generateFallbackTestCases
            \<and> (\<forall>i<12. get_prop (self (cases b ! i)) ''id'' = Some (JStr (tc_id (Suc i)))
                      \<and> get_prop (self (cases b ! i)) ''category'' = Some (JStr (band (Suc i)))))
          \<or> (\<exists>k rt tcs. 1 \<le> k \<and> k \<le> maxRetries \<and> generateContent env k = Responded rt
                \<and> recover env rt = Some tcs \<and> 4 \<le> length tcs
                \<and> (\<forall>i<12. if i < length tcs then self (cases b ! i) = tcs ! i
                           else get_prop (self (cases b ! i)) ''id'' = Some (JStr (tc_id (Suc i)))
                                \<and> get_prop (self (cases b ! i)) ''category''
                                    = Some (JStr (band (Suc i))))))
       \<and> map tc_id [1..<13]
           = [''TC_001'', ''TC_002'', ''TC_003'', ''TC_004'', ''TC_005'', ''TC_006'',
              ''TC_007'', ''TC_008'', ''TC_009'', ''TC_010'', ''TC_011'', ''TC_012'']
       \<and> map band [1..<13]
           = [''valid'', ''valid'', ''valid'', ''invalid'', ''invalid'', ''invalid'', ''invalid'',
              ''boundary'', ''boundary'', ''boundary'', ''security'', ''security'']"
proof -
  have ids: "map tc_id [1..<13]
           = [''TC_001'', ''TC_002'', ''TC_003'', ''TC_004'', ''TC_005'', ''TC_006'',
              ''TC_007'', ''TC_008'', ''TC_009'', ''TC_010'', ''TC_011'', ''TC_012'']"
    by code_simp
  have bands: "map band [1..<13]
           = [''valid'', ''valid'', ''valid'', ''invalid'', ''invalid'', ''invalid'', ''invalid'',
              ''boundary'', ''boundary'', ''boundary'', ''security'', ''security'']"
    by code_simp
  from assms returned_shape [of env maxRetries 1 b]
  consider (fb) "b = generateFallbackTestCases"
    | (model) j where "1 \<le> j" "j \<le> maxRetries" "attempt_try env j = Inr b"
    by (auto simp: generateWithRetry_def)
  then have "length (cases b) = 12
       \<and> ((b = generateFallbackTestCases
            \<and> (\<forall>i<12. get_prop (self (cases b ! i)) ''id'' = Some (JStr (tc_id (Suc i)))
                      \<and> get_prop (self (cases b ! i)) ''category'' = Some (JStr (band (Suc i)))))
          \<or> (\<exists>k rt tcs. 1 \<le> k \<and> k \<le> maxRetries \<and> generateContent env k = Responded rt
                \<and> recover env rt = Some tcs \<and> 4 \<le> length tcs
                \<and> (\<forall>i<12. if i < length tcs then self (cases b ! i) = tcs ! i
                           else get_prop (self (cases b ! i)) ''id'' = Some (JStr (tc_id (Suc i)))
                                \<and> get_prop (self (cases b ! i)) ''category''
                                    = Some (JStr (band (Suc i))))))"
  proof cases
    case fb
    then show ?thesis using fallback_length fallback_ids by simp
  next
    case model
    from attempt_try_shape [OF model(3)] obtain rt tcs where
      a: "generateContent env j = Responded rt" "recover env rt = Some tcs" "4 \<le> length tcs"
        "length (cases b) = 12"
        "\<forall>i<12. if i < length tcs then self (cases b ! i) = tcs ! i
                 else \<exists>r. self (cases b ! i) = autofill_case (Suc i) r"
      by blast
    have "\<forall>i<12. if i < length tcs then self (cases b ! i) = tcs ! i
                 else get_prop (self (cases b ! i)) ''id'' = Some (JStr (tc_id (Suc i)))
                      \<and> get_prop (self (cases b ! i)) ''category'' = Some (JStr (band (Suc i)))"
      using a(5) autofill_ids by (metis (no_types, lifting))
    with a model show ?thesis by blast
  qed
  with ids bands show ?thesis by blast
qed

lemma success_returns:
  "attempt_try env k = Inr b \<Longrightarrow> k \<le> M \<Longrightarrow>
   generateWithRetry_from env M k = (Returned b, [Invoke k])"
  by (simp add: generateWithRetry_from.simps [of env M k])

theorem generateWithRetry_batch_shape_witness:
  "fst (generateWithRetry (demo_env model_four) 3) = Returned (slice12 (pad (load four_cases)))
   \<and> length (cases (slice12 (pad (load four_cases)))) = 12
   \<and> self (cases (slice12 (pad (load four_cases))) ! 0) = four_cases ! 0
   \<and> get_prop (self (cases (slice12 (pad (load four_cases))) ! 4)) ''id'' = Some (JStr ''TC_005'')
   \<and> get_prop (self (cases (slice12 (pad (load four_cases))) ! 4)) ''category'' = Some (JStr ''invalid'')"
proof -
  let ?b = "slice12 (pad (load four_cases))"
  have rc: "recover (demo_env model_four) four_cases_text = Some four_cases"
    by (simp add: recover_def demo_env_def)
  have at: "attempt_try (demo_env model_four) 1 = Inr ?b"
    using rc by (simp add: attempt_try_def demo_env_def model_four_def four_cases_def)
  have h: "fst (generateWithRetry (demo_env model_four) 3) = Returned ?b"
    using success_returns [OF at, of 3] by (simp add: generateWithRetry_def)
  have nofb: "?b \<noteq> generateFallbackTestCases"
  proof
    assume "?b = generateFallbackTestCases"
    then have "fresh ?b = fresh generateFallbackTestCases" by simp
    then show False by code_simp
  qed
  note th = generateWithRetry_batch_shape [OF h]
  from th have len: "length (cases ?b) = 12" by blast
  from th nofb obtain k rt tcs where
    k: "generateContent (demo_env model_four) k = Responded rt"
      "recover (demo_env model_four) rt = Some tcs"
    and each: "\<forall>i<12. if i < length tcs then self (cases ?b ! i) = tcs ! i
                 else get_prop (self (cases ?b ! i)) ''id'' = Some (JStr (tc_id (Suc i)))
                      \<and> get_prop (self (cases ?b ! i)) ''category'' = Some (JStr (band (Suc i)))"
    by blast
  from k have "rt = four_cases_text" by (simp add: demo_env_def model_four_def)
  with k(2) rc have tcs: "tcs = four_cases" by simp
  have l4: "length four_cases = 4" by (simp add: four_cases_def)
  from each tcs l4 have c0: "self (cases ?b ! 0) = four_cases ! 0"
    by (metis (no_types, lifting) zero_less_numeral)
  have "\<not> (4::nat) < length tcs" "(4::nat) < 12" using tcs l4 by simp_all
  with each have "get_prop (self (cases ?b ! 4)) ''id'' = Some (JStr (tc_id (Suc 4)))
       \<and> get_prop (self (cases ?b ! 4)) ''category'' = Some (JStr (band (Suc 4)))"
    by (metis (no_types, lifting))
  moreover have "tc_id (Suc 4) = ''TC_005''" "band (Suc 4) = ''invalid''" by code_simp+
  ultimately show ?thesis using h len c0 by simp
qed

text \<open>
  The claim as stated fails when the model answers with four cases of its own naming: the
  batch has 12 cases, but the first four keep the model's ids and categories.
\<close>

theorem generateWithRetry_ids_counterexample:
  "map (\<lambda>c. get_prop (self c) ''id'')
       (returned_cases (fst (generateWithRetry (demo_env model_four) 3)))
     = [Some (JStr ''A''), Some (JStr ''B''), Some (JStr ''C''), Some (JStr ''D''),
        Some (JStr ''TC_005''), Some (JStr ''TC_006''), Some (JStr ''TC_007''),
        Some (JStr ''TC_008''), Some (JStr ''TC_009''), Some (JStr ''TC_010''),
        Some (JStr ''TC_011''), Some (JStr ''TC_012'')]
   \<and> map (\<lambda>c. get_prop (self c) ''category'')
       (returned_cases (fst (generateWithRetry (demo_env model_four) 3)))
     = [Some (JStr ''smoke''), None, None, None,
        Some (JStr ''invalid''), Some (JStr ''invalid''), Some (JStr ''invalid''),
        Some (JStr ''boundary''), Some (JStr ''boundary''), Some (JStr ''boundary''),
        Some (JStr ''security''), Some (JStr ''security'')]"
  by code_simp


text \<open>
  C6.  When the model call of attempt \<open>k\<close> fails with a quota error whose payload says
  that the limit is 0, the run from that attempt on is: one model call, then the fallback
  batch; no wait and no further call.  So in a whole run that reaches attempt \<open>k\<close>, the
  call of attempt \<open>k\<close> is the last event and the result is the fallback batch.
\<close>

theorem free_tier_disabled_returns_fallback:
  assumes "1 \<le> k" and "k \<le> maxRetries" and "generateContent env k = Failed e"
    and "isQuota env e" and "freeTierDisabled env e"
  shows "generateWithRetry_from env maxRetries k = (Returned generateFallbackTestCases, [Invoke k])
       \<and> ((\<forall>j. 1 \<le> j \<and> j < k \<longrightarrow> next_turn env maxRetries j) \<longrightarrow>
            fst (generateWithRetry env maxRetries) = Returned generateFallbackTestCases
            \<and> (\<exists>pre. snd (generateWithRetry env maxRetries) = pre @ [Invoke k]
                     \<and> (\<forall>j\<ge>k. Invoke j \<notin> set pre)))"
proof -
  have at: "attempt_try env k = Inl e"
    using assms(3) by (simp add: attempt_try_def)
  have here: "generateWithRetry_from env maxRetries k = (Returned generateFallbackTestCases, [Invoke k])"
    using assms(2) at on_error_free_tier [OF assms(4,5), of maxRetries k]
    by (simp add: generateWithRetry_from.simps [of env maxRetries k])
  have whole: "fst (generateWithRetry env maxRetries) = Returned generateFallbackTestCases
            \<and> (\<exists>pre. snd (generateWithRetry env maxRetries) = pre @ [Invoke k]
                     \<and> (\<forall>j\<ge>k. Invoke j \<notin> set pre))"
    if "\<forall>j. 1 \<le> j \<and> j < k \<longrightarrow> next_turn env maxRetries j"
  proof -
    from run_prefix [OF that assms(1)] assms(2) obtain pre where
      "generateWithRetry_from env maxRetries 1
         = (fst (generateWithRetry_from env maxRetries k),
            pre @ snd (generateWithRetry_from env maxRetries k))"
      "\<forall>j\<ge>k. Invoke j \<notin> set pre"
      by (meson le_SucI)
    then show ?thesis
      unfolding generateWithRetry_def here by simp
  qed
  from here whole show ?thesis by blast
qed


lemma backoff_base_bounds: "0 \<le> backoff_base k \<and> backoff_base k \<le> 5000"
  by (simp add: backoff_base_def)


lemma demo_random: "random (demo_env g) k = 1 / 4"
  by (simp add: demo_env_def)

lemma demo_failed: "g k = Failed e \<Longrightarrow> attempt_try (demo_env g) k = Inl e"
  by (simp add: attempt_try_def demo_env_def)

lemma fetch_failed_plain:
  "\<not> isAuth (plain_error ''fetch failed'') \<and> \<not> isQuota (demo_env g) (plain_error ''fetch failed'')"
proof -
  have "\<not> isAuth (plain_error ''fetch failed'')" by code_simp
  moreover have "\<not> isQuota (demo_env g) (plain_error ''fetch failed'')"
    by (simp add: isQuota_def apiData_def or_else_def plain_error_def test_ci_def
          str_includes_def toUpperCase_def upc_def startsWith_def)
  ultimately show ?thesis by blast
qed

lemma fetch_failed_step:
  "k < M \<Longrightarrow> on_error (demo_env g) M k (plain_error ''fetch failed'')
               = Continue (backoff_base k + 75)"
  using fetch_failed_plain [of g] by (simp add: on_error_def jitter_def demo_random)


theorem free_tier_disabled_returns_fallback_witness:
  "generateContent (demo_env model_zero_quota) 2
     = Failed (payload_error ''[429 Too Many Requests]'' zero_quota_payload)
   \<and> isQuota (demo_env model_zero_quota) (payload_error ''[429 Too Many Requests]'' zero_quota_payload)
   \<and> freeTierDisabled (demo_env model_zero_quota)
        (payload_error ''[429 Too Many Requests]'' zero_quota_payload)
   \<and> next_turn (demo_env model_zero_quota) 3 1
   \<and> generateWithRetry_from (demo_env model_zero_quota) 3 2
       = (Returned generateFallbackTestCases, [Invoke 2])
   \<and> fst (generateWithRetry (demo_env model_zero_quota) 3) = Returned generateFallbackTestCases
   \<and> snd (generateWithRetry (demo_env model_zero_quota) 3) = [Invoke 1, Wait 2075, Invoke 2]"
proof -
  let ?E = "demo_env model_zero_quota"
  let ?e = "payload_error ''[429 Too Many Requests]'' zero_quota_payload"
  have g: "generateContent ?E 2 = Failed ?e"
    by (simp add: demo_env_def model_zero_quota_def)
  have q: "isQuota ?E ?e" by code_simp
  have f: "freeTierDisabled ?E ?e" by code_simp
  have a1: "attempt_try ?E 1 = Inl (plain_error ''fetch failed'')"
    by (rule demo_failed) (simp add: model_zero_quota_def)
  have nt: "next_turn ?E 3 1"
    using a1 fetch_failed_step [of 1 3 model_zero_quota] by (simp add: next_turn_def)
  then have pre: "\<forall>j. 1 \<le> j \<and> j < 2 \<longrightarrow> next_turn ?E 3 j"
    by (metis One_nat_def Suc_1 le_antisym less_Suc_eq_le)
  note th = free_tier_disabled_returns_fallback [of 2 3 ?E ?e, OF _ _ g q f]
  have r1: "generateWithRetry_from ?E 3 2 = (Returned generateFallbackTestCases, [Invoke 2])"
    using th by simp
  have r2: "fst (generateWithRetry ?E 3) = Returned generateFallbackTestCases"
    using th pre by simp
  have tr: "snd (generateWithRetry ?E 3) = [Invoke 1, Wait 2075, Invoke 2]"
    by code_simp
  from g q f nt r1 r2 tr show ?thesis by blast
qed



section \<open>Properties of the cache and of validation\<close>

lemma trace_starts_with_call:
  "k \<le> M \<Longrightarrow> \<exists>tr. snd (generateWithRetry_from env M k) = Invoke k # tr"
  by (simp add: generateWithRetry_from.simps [of env M k]
        split: sum.splits step.splits)

lemma generation_is_called: "\<exists>tr. snd (generateWithRetry env 3) = Invoke 1 # tr"
  unfolding generateWithRetry_def by (rule trace_starts_with_call) simp

lemma spec_object:
  "is_truthy (Some (JObj kvs))" "or_else (Some (JObj kvs)) d = JObj kvs" "is_object (JObj kvs)"
  by (simp_all add: is_truthy_def is_object_def or_else_def)

lemma served_from_cache:
  assumes "validate_spec (JObj kvs) = Inr vs"
    and "c (json_stringify env (vspec_json vs)) = Some (r, expires)"
    and "\<not> expires < t"
  shows "generate_tests env t t' c (Some (JObj kvs)) = (Json (r\<lparr>cached := True\<rparr>), c, [])"
  using assms by (simp add: generate_tests_def spec_object cache_get_def Let_def)

lemma generated_again:
  assumes "validate_spec (JObj kvs) = Inr vs"
    and "c (json_stringify env (vspec_json vs)) = Some (r, expires)"
    and "expires < t"
  shows "\<exists>reply c'. generate_tests env t t' c (Some (JObj kvs))
            = (reply, c', snd (generateWithRetry env 3))"
  using assms
  by (auto simp: generate_tests_def spec_object cache_get_def Let_def
           split: prod.splits completion.splits sum.splits)

lemma generated_is_stored:
  assumes "generate_tests env t t' c (Some (JObj kvs)) = (Json r, c1, tr)" and "\<not> cached r"
  shows "\<exists>vs. validate_spec (JObj kvs) = Inr vs
            \<and> c1 (json_stringify env (vspec_json vs)) = Some (r, t' + TTL_MS)
            \<and> tr = snd (generateWithRetry env 3)"
proof -
  from assms(1) obtain vs where vs: "validate_spec (JObj kvs) = Inr vs"
    by (auto simp: generate_tests_def spec_object split: sum.splits)
  let ?k = "json_stringify env (vspec_json vs)"
  show ?thesis
  proof (cases "fst (cache_get c t ?k)")
    case (Some hit)
    with assms vs show ?thesis
      by (auto simp: generate_tests_def spec_object Let_def split: prod.splits)
  next
    case None
    with assms(1) vs have "c1 ?k = Some (r, t' + TTL_MS) \<and> tr = snd (generateWithRetry env 3)"
      by (auto simp: generate_tests_def spec_object Let_def cache_set_def
               split: prod.splits completion.splits sum.splits)
    with vs show ?thesis by blast
  qed
qed

lemma validateMethod_case:
  "toUpperCase m1 = toUpperCase m2 \<Longrightarrow>
   validateMethod (Some (JStr m1)) = validateMethod (Some (JStr m2))"
  by (simp add: validateMethod_def)

lemma validateEndpoint_trim:
  assumes "trim e1 = trim e2" and "validateEndpoint (Some (JStr e1)) = Inr ep"
  shows "validateEndpoint (Some (JStr e2)) = Inr ep"
proof -
  from assms(2) have ne: "e1 \<noteq> []" and sw: "startsWith (trim e1) ''/''"
    by (auto simp: validateEndpoint_def Let_def split: if_splits)
  from sw have "trim e1 \<noteq> []" by (auto simp: startsWith_def)
  with assms(1) have "e2 \<noteq> []" by (auto simp: trim_def)
  with assms ne show ?thesis
    by (simp add: validateEndpoint_def Let_def split: if_splits)
qed

lemma validate_spec_normalises:
  assumes "map_of kvs1 ''method'' = Some (JStr m1)" and "map_of kvs2 ''method'' = Some (JStr m2)"
    and "toUpperCase m1 = toUpperCase m2"
    and "map_of kvs1 ''endpoint'' = Some (JStr e1)" and "map_of kvs2 ''endpoint'' = Some (JStr e2)"
    and "trim e1 = trim e2"
    and "map_of kvs1 ''headers'' = map_of kvs2 ''headers''"
    and "map_of kvs1 ''body'' = map_of kvs2 ''body''"
    and "map_of kvs1 ''expected_response'' = map_of kvs2 ''expected_response''"
    and "validate_spec (JObj kvs1) = Inr vs"
  shows "validate_spec (JObj kvs2) = Inr vs
         \<and> endpoint vs = trim e1 \<and> http_method vs = toUpperCase m1"
proof -
  from assms(10) assms(1,4) obtain ep m where
    ep: "validateEndpoint (Some (JStr e1)) = Inr ep"
    and m: "validateMethod (Some (JStr m1)) = Inr m"
    and vs: "vs = \<lparr>endpoint = ep, http_method = m,
                   headers = or_else (map_of kvs1 ''headers'') (JObj []),
                   body = or_else (map_of kvs1 ''body'') (JObj []),
                   expected_response = or_else (map_of kvs1 ''expected_response'') (JObj [])\<rparr>"
    by (auto simp: validate_spec_def get_prop_def split: sum.splits)
  from validateEndpoint_trim [OF assms(6) ep] have ep2: "validateEndpoint (Some (JStr e2)) = Inr ep" .
  from validateMethod_case [OF assms(3)] m have m2: "validateMethod (Some (JStr m2)) = Inr m" by simp
  have "validate_spec (JObj kvs2) = Inr vs"
    using ep2 m2 assms(2,5,7,8,9) by (simp add: validate_spec_def get_prop_def vs)
  moreover from ep have "ep = trim e1"
    by (auto simp: validateEndpoint_def Let_def split: if_splits)
  moreover from m have "m = toUpperCase m1"
    by (auto simp: validateMethod_def Let_def split: if_splits)
  ultimately show ?thesis using vs by simp
qed

lemma down_gives_fallback:
  "fst (generateWithRetry (demo_env model_down) 3) = Returned generateFallbackTestCases"
proof -
  have "\<forall>j. 1 \<le> j \<and> j \<le> 3 \<longrightarrow>
        (\<exists>e. attempt_try (demo_env model_down) j = Inl e
           \<and> \<not> (isAuth e \<and> \<not> isQuota (demo_env model_down) e))"
    using fetch_failed_plain [of model_down] demo_failed [of model_down]
    by (metis model_down_def)
  then show ?thesis
    unfolding generateWithRetry_def by (rule all_fail_fallback)
qed

lemma first_request_generates:
  "\<exists>r1 c1 tr1.
     generate_tests (demo_env model_down) 1000 9000 Map.empty (Some (JObj demo_spec)) = (Json r1, c1, tr1)
     \<and> \<not> cached r1"
proof -
  have v: "validate_spec (JObj demo_spec) = Inr demo_vspec" by code_simp
  have "\<not> isl (patch_all demo_vspec generateFallbackTestCases)" by code_simp
  then obtain b where b: "patch_all demo_vspec generateFallbackTestCases = Inr b"
    by (cases "patch_all demo_vspec generateFallbackTestCases") auto
  obtain tr where g: "generateWithRetry (demo_env model_down) 3 = (Returned generateFallbackTestCases, tr)"
    using down_gives_fallback by (cases "generateWithRetry (demo_env model_down) 3") auto
  show ?thesis
    using v b g
    by (simp add: generate_tests_def spec_object cache_get_def Let_def)
qed

text \<open>
  C8.  A first request generated its answer \<open>r1\<close> and stored it at time \<open>t1'\<close>.  A
  second request whose specification validates to the same fingerprint and whose lookup
  happens no later than \<open>t1' + TTL_MS\<close> is answered with \<open>r1\<close> marked as cached,
  with the same success flag, test cases, summary and message, and without a call of the
  generation engine (the trace is empty), whatever the model would have answered.  A
  lookup after that time is a miss: the generation engine runs again, starting with a
  model call.
\<close>

theorem second_request_served_from_cache:
  assumes "generate_tests env1 t1 t1' c (Some (JObj kvs1)) = (Json r1, c1, tr1)"
    and "\<not> cached r1"
    and "validate_spec (JObj kvs1) = Inr vs1" and "validate_spec (JObj kvs2) = Inr vs2"
    and "json_stringify env2 = json_stringify env1"
    and "json_stringify env1 (vspec_json vs1) = json_stringify env1 (vspec_json vs2)"
  shows "(t2 \<le> t1' + TTL_MS \<longrightarrow>
            generate_tests env2 t2 t2' c1 (Some (JObj kvs2)) = (Json (r1\<lparr>cached := True\<rparr>), c1, [])
            \<and> success (r1\<lparr>cached := True\<rparr>) = success r1
            \<and> testCases (r1\<lparr>cached := True\<rparr>) = testCases r1
            \<and> summary (r1\<lparr>cached := True\<rparr>) = summary r1
            \<and> resp_message (r1\<lparr>cached := True\<rparr>) = resp_message r1
            \<and> cached (r1\<lparr>cached := True\<rparr>))
       \<and> (t1' + TTL_MS < t2 \<longrightarrow>
            (\<exists>reply c2 tr. generate_tests env2 t2 t2' c1 (Some (JObj kvs2))
                             = (reply, c2, Invoke 1 # tr)
                           \<and> Invoke 1 # tr = snd (generateWithRetry env2 3)))"
proof -
  from generated_is_stored [OF assms(1,2)] assms(3)
  have stored: "c1 (json_stringify env1 (vspec_json vs1)) = Some (r1, t1' + TTL_MS)"
    by simp
  then have stored2: "c1 (json_stringify env2 (vspec_json vs2)) = Some (r1, t1' + TTL_MS)"
    using assms(5,6) by simp
  have hit: "generate_tests env2 t2 t2' c1 (Some (JObj kvs2)) = (Json (r1\<lparr>cached := True\<rparr>), c1, [])"
    if "t2 \<le> t1' + TTL_MS"
    using served_from_cache [of kvs2 vs2 c1 env2 r1 "t1' + TTL_MS" t2 t2'] assms(4) stored2 that
    by simp
  have miss: "\<exists>reply c2 tr. generate_tests env2 t2 t2' c1 (Some (JObj kvs2))
                             = (reply, c2, Invoke 1 # tr)
                           \<and> Invoke 1 # tr = snd (generateWithRetry env2 3)"
    if "t1' + TTL_MS < t2"
    using generated_again [of kvs2 vs2 c1 env2 r1 "t1' + TTL_MS" t2 t2'] assms(4) stored2 that
      generation_is_called [of env2]
    by metis
  from hit miss show ?thesis by simp
qed

theorem second_request_served_from_cache_witness:
  "validate_spec (JObj demo_spec) = Inr demo_vspec
   \<and> (\<exists>r1 c1 tr1.
        generate_tests (demo_env model_down) 1000 9000 Map.empty (Some (JObj demo_spec))
          = (Json r1, c1, tr1)
        \<and> \<not> cached r1
        \<and> generate_tests (demo_env model_four) 3609000 3609500 c1 (Some (JObj demo_spec))
            = (Json (r1\<lparr>cached := True\<rparr>), c1, [])
        \<and> (\<exists>reply c2 tr. generate_tests (demo_env model_four) 3609001 3609500 c1 (Some (JObj demo_spec))
                             = (reply, c2, Invoke 1 # tr)))"
proof -
  have v: "validate_spec (JObj demo_spec) = Inr demo_vspec" by code_simp
  have s: "json_stringify (demo_env model_four) = json_stringify (demo_env model_down)"
    by (simp add: demo_env_def)
  from first_request_generates obtain r1 c1 tr1 where
    first: "generate_tests (demo_env model_down) 1000 9000 Map.empty (Some (JObj demo_spec))
              = (Json r1, c1, tr1)"
    and fresh: "\<not> cached r1"
    by blast
  have ttl: "(3609000::nat) \<le> 9000 + TTL_MS" "9000 + TTL_MS < (3609001::nat)"
    by (simp_all add: TTL_MS_def)
  note th = second_request_served_from_cache [OF first fresh v v s refl]
  from th [of 3609000 3609500] ttl(1)
  have hit: "generate_tests (demo_env model_four) 3609000 3609500 c1 (Some (JObj demo_spec))
            = (Json (r1\<lparr>cached := True\<rparr>), c1, [])"
    by blast
  from th [of 3609001 3609500] ttl(2)
  have miss: "\<exists>reply c2 tr. generate_tests (demo_env model_four) 3609001 3609500 c1 (Some (JObj demo_spec))
                             = (reply, c2, Invoke 1 # tr)"
    by blast
  from v first fresh hit miss show ?thesis by blast
qed

text \<open>
  C10.  Two specifications that differ only in the letter case of the method and in white
  space around the endpoint validate to the same specification, with the method in upper
  case and the endpoint trimmed; so their cache keys are the same text, and once the first
  has been generated and stored, the second, within the TTL, is served from the cache.
\<close>

theorem case_and_whitespace_share_cache_entry:
  assumes "map_of kvs1 ''method'' = Some (JStr m1)" and "map_of kvs2 ''method'' = Some (JStr m2)"
    and "toUpperCase m1 = toUpperCase m2"
    and "map_of kvs1 ''endpoint'' = Some (JStr e1)" and "map_of kvs2 ''endpoint'' = Some (JStr e2)"
    and "trim e1 = trim e2"
    and "map_of kvs1 ''headers'' = map_of kvs2 ''headers''"
    and "map_of kvs1 ''body'' = map_of kvs2 ''body''"
    and "map_of kvs1 ''expected_response'' = map_of kvs2 ''expected_response''"
    and "validate_spec (JObj kvs1) = Inr vs"
  shows "validate_spec (JObj kvs2) = Inr vs
       \<and> endpoint vs = trim e1 \<and> http_method vs = toUpperCase m1
       \<and> (\<forall>env1 env2 t1 t1' t2 t2' c r1 c1 tr1.
             generate_tests env1 t1 t1' c (Some (JObj kvs1)) = (Json r1, c1, tr1) \<and> \<not> cached r1
             \<and> json_stringify env2 = json_stringify env1 \<and> t2 \<le> t1' + TTL_MS
           \<longrightarrow> generate_tests env2 t2 t2' c1 (Some (JObj kvs2))
                 = (Json (r1\<lparr>cached := True\<rparr>), c1, []))"
proof -
  note n = validate_spec_normalises [OF assms]
  have share: "generate_tests env2 t2 t2' c1 (Some (JObj kvs2)) = (Json (r1\<lparr>cached := True\<rparr>), c1, [])"
    if a: "generate_tests env1 t1 t1' c (Some (JObj kvs1)) = (Json r1, c1, tr1) \<and> \<not> cached r1
             \<and> json_stringify env2 = json_stringify env1 \<and> t2 \<le> t1' + TTL_MS"
    for env1 env2 t1 t1' t2 t2' c r1 c1 tr1
  proof -
    from a generated_is_stored [of env1 t1 t1' c kvs1 r1 c1 tr1] assms(10)
    have "c1 (json_stringify env1 (vspec_json vs)) = Some (r1, t1' + TTL_MS)" by simp
    then have "c1 (json_stringify env2 (vspec_json vs)) = Some (r1, t1' + TTL_MS)"
      using a by simp
    with served_from_cache [of kvs2 vs c1 env2 r1 "t1' + TTL_MS" t2 t2'] n a
    show ?thesis by simp
  qed
  from n share show ?thesis by blast
qed

theorem case_and_whitespace_share_cache_entry_witness:
  "toUpperCase ''POST'' = toUpperCase ''post'' \<and> trim ''/users'' = trim ''  /users ''
   \<and> validate_spec (JObj demo_spec) = Inr demo_vspec
   \<and> validate_spec (JObj demo_spec_variant) = Inr demo_vspec
   \<and> endpoint demo_vspec = ''/users'' \<and> http_method demo_vspec = ''POST''
   \<and> (\<exists>r1 c1 tr1.
        generate_tests (demo_env model_down) 1000 9000 Map.empty (Some (JObj demo_spec))
          = (Json r1, c1, tr1)
        \<and> generate_tests (demo_env model_four) 20000 20500 c1 (Some (JObj demo_spec_variant))
            = (Json (r1\<lparr>cached := True\<rparr>), c1, []))"
proof -
  have m: "toUpperCase ''POST'' = toUpperCase ''post''" by code_simp
  have e: "trim ''/users'' = trim ''  /users ''" by code_simp
  have v: "validate_spec (JObj demo_spec) = Inr demo_vspec" by code_simp
  have ps: "map_of demo_spec ''method'' = Some (JStr ''POST'')"
    "map_of demo_spec_variant ''method'' = Some (JStr ''post'')"
    "map_of demo_spec ''endpoint'' = Some (JStr ''/users'')"
    "map_of demo_spec_variant ''endpoint'' = Some (JStr ''  /users '')"
    "map_of demo_spec ''headers'' = map_of demo_spec_variant ''headers''"
    "map_of demo_spec ''body'' = map_of demo_spec_variant ''body''"
    "map_of demo_spec ''expected_response'' = map_of demo_spec_variant ''expected_response''"
    by (simp_all add: demo_spec_def demo_spec_variant_def)
  note th = case_and_whitespace_share_cache_entry [OF ps(1) ps(2) m ps(3) ps(4) e ps(5) ps(6) ps(7) v]
  from th have v2: "validate_spec (JObj demo_spec_variant) = Inr demo_vspec"
    and ep: "endpoint demo_vspec = trim ''/users''"
    and hm: "http_method demo_vspec = toUpperCase ''POST''"
    by blast+
  have ep': "endpoint demo_vspec = ''/users''" and hm': "http_method demo_vspec = ''POST''"
    by (simp_all add: demo_vspec_def)
  from first_request_generates obtain r1 c1 tr1 where
    first: "generate_tests (demo_env model_down) 1000 9000 Map.empty (Some (JObj demo_spec))
              = (Json r1, c1, tr1)"
    and fresh: "\<not> cached r1"
    by blast
  have s: "json_stringify (demo_env model_four) = json_stringify (demo_env model_down)"
    by (simp add: demo_env_def)
  have ttl: "(20000::nat) \<le> 9000 + TTL_MS" by (simp add: TTL_MS_def)
  from th first fresh s ttl
  have "generate_tests (demo_env model_four) 20000 20500 c1 (Some (JObj demo_spec_variant))
            = (Json (r1\<lparr>cached := True\<rparr>), c1, [])"
    by blast
  with m e v v2 ep' hm' first show ?thesis by blast
qed

section \<open>Properties of the patching step\<close>

lemma map_of_assign_same: "map_of (assign kvs k v) k = Some v"
  by (induction kvs k v rule: assign.induct) auto

lemma map_of_assign_other: "k' \<noteq> k \<Longrightarrow> map_of (assign kvs k v) k' = map_of kvs k'"
  by (induction kvs k v rule: assign.induct) auto

lemma map_of_delete_same: "map_of (delete_key kvs k) k = None"
  by (induction kvs) (auto simp: delete_key_def)

lemma map_of_delete_other: "k' \<noteq> k \<Longrightarrow> map_of (delete_key kvs k) k' = map_of kvs k'"
  by (induction kvs) (auto simp: delete_key_def)

lemmas obj_simps = map_of_assign_same map_of_assign_other map_of_delete_same map_of_delete_other

lemma patch_request_ok:
  assumes "patch_request vs tc r = Inr r'"
  shows "request_ok vs r'
         \<and> (http_method vs \<in> set methodsWithBody \<and> get_prop tc ''category'' = Some (JStr ''valid'')
              \<longrightarrow> is_array r' \<or> get_prop r' ''body'' = Some (body vs))"
proof (cases r)
  case (JArr xs)
  with assms have "r' = JArr xs"
    by (auto simp: patch_request_def set_member_def delete_member_def split: option.splits if_splits)
  then show ?thesis by (simp add: request_ok_def is_array_def)
next
  case (JObj ps)
  define p3 where "p3 = assign (assign (assign ps ''method'' (JStr (http_method vs)))
                          ''endpoint'' (JStr (endpoint vs))) ''headers'' (headers vs)"
  have p3: "map_of p3 ''method'' = Some (JStr (http_method vs))"
    "map_of p3 ''endpoint'' = Some (JStr (endpoint vs))"
    "map_of p3 ''headers'' = Some (headers vs)"
    by (simp_all add: p3_def obj_simps)
  show ?thesis
  proof (cases "http_method vs \<in> set methodsWithBody")
    case False
    with assms JObj have "r' = JObj (delete_key p3 ''body'')"
      by (simp add: patch_request_def set_member_def delete_member_def p3_def)
    with p3 False show ?thesis
      by (simp add: request_ok_def get_prop_def obj_simps)
  next
    case True
    show ?thesis
    proof (cases "patched_body vs tc")
      case None
      with assms JObj True have r': "r' = JObj p3"
        by (simp add: patch_request_def set_member_def p3_def)
      from None have "get_prop tc ''category'' \<noteq> Some (JStr ''valid'')"
        by (auto simp: patched_body_def Let_def split: if_splits)
      with r' p3 True show ?thesis
        by (simp add: request_ok_def get_prop_def)
    next
      case (Some b)
      with assms JObj True have r': "r' = JObj (assign p3 ''body'' b)"
        by (simp add: patch_request_def set_member_def p3_def)
      from Some have "get_prop tc ''category'' = Some (JStr ''valid'') \<longrightarrow> b = body vs"
        by (auto simp: patched_body_def Let_def split: if_splits)
      with r' p3 True show ?thesis
        by (auto simp: request_ok_def get_prop_def obj_simps)
    qed
  qed
qed (use assms in \<open>auto simp: patch_request_def set_member_def\<close>)

lemma status_member:
  assumes "set_member er0 ''status'' (JNum n) = Inr er"
  shows "is_array er \<or> get_prop er ''status'' = Some (JNum n)"
  using assms
  by (cases er0) (auto simp: set_member_def is_array_def get_prop_def obj_simps)

lemma patched_status_value:
  "patched_status vs (JObj kvs)
     = (if map_of kvs ''category'' = Some (JStr ''valid'')
        then (if http_method vs = ''POST'' then 201 else 200) else 400)"
  by (auto simp: patched_status_def get_prop_def methodsWithBody_def)

lemma patch_case_array:
  "self c = JArr xs \<Longrightarrow> patch_case vs st fr c = Inr (c, st, fr)"
  by (simp add: patch_case_def)

lemma patch_case_object:
  assumes "patch_case vs st fr c = Inr (c', st', fr')" and "self c = JObj kvs"
  shows "\<exists>kvs' a r er.
            self c' = JObj kvs' \<and> req c' = At a \<and> st' a = Some r
            \<and> map_of kvs' ''id'' = map_of kvs ''id''
            \<and> map_of kvs' ''category'' = map_of kvs ''category''
            \<and> map_of kvs' ''expected_response'' = Some er
            \<and> status_ok vs (map_of kvs ''category'') er
            \<and> request_ok vs r
            \<and> (http_method vs \<in> set methodsWithBody \<and> map_of kvs ''category'' = Some (JStr ''valid'')
                 \<longrightarrow> is_array r \<or> get_prop r ''body'' = Some (body vs))
            \<and> (\<forall>x. x \<noteq> a \<longrightarrow> st' x = st x)"
proof -
  from assms obtain kvs1 a st1 where
    first: "(case req c of
               At a \<Rightarrow> Inr (kvs, a, st, fr)
             | Inline \<Rightarrow>
                 if is_truthy (map_of kvs ''request'') then Inl TypeError
                 else Inr (assign kvs ''request'' (JObj []), fr, st(fr \<mapsto> JObj []), Suc fr))
            = Inr (kvs1, a, st1, fr')"
    by (auto simp: patch_case_def split: sum.splits prod.splits)
  have k1: "map_of kvs1 ''id'' = map_of kvs ''id''"
    "map_of kvs1 ''category'' = map_of kvs ''category''"
    and frame1: "\<forall>x. x \<noteq> a \<longrightarrow> st1 x = st x"
    using first by (auto simp: obj_simps split: request_ref.splits if_splits)
  from assms first obtain r' er where
    r': "patch_request vs (JObj kvs) (case st1 a of Some r \<Rightarrow> r | None \<Rightarrow> JObj []) = Inr r'"
    and er: "set_member (or_else (map_of kvs1 ''expected_response'') (JObj []))
               ''status'' (JNum (patched_status vs (JObj kvs))) = Inr er"
    and c': "c' = \<lparr>self = JObj (assign kvs1 ''expected_response'' er), req = At a\<rparr>"
    and st': "st' = st1(a \<mapsto> r')"
    by (auto simp: patch_case_def split: sum.splits prod.splits)
  note pr = patch_request_ok [OF r']
  have so: "status_ok vs (map_of kvs ''category'') er"
    using status_member [OF er] by (simp add: status_ok_def patched_status_value)
  have "self c' = JObj (assign kvs1 ''expected_response'' er)" "req c' = At a"
    "st' a = Some r'"
    "map_of (assign kvs1 ''expected_response'' er) ''id'' = map_of kvs ''id''"
    "map_of (assign kvs1 ''expected_response'' er) ''category'' = map_of kvs ''category''"
    "map_of (assign kvs1 ''expected_response'' er) ''expected_response'' = Some er"
    "\<forall>x. x \<noteq> a \<longrightarrow> st' x = st x"
    using k1 frame1 by (simp_all add: c' st' obj_simps)
  with so pr show ?thesis
    by (simp add: get_prop_def)
qed

lemma patch_case_shape:
  assumes "patch_case vs st fr c = Inr (c', st', fr')"
  shows "(\<exists>xs. self c = JArr xs) \<or> (\<exists>kvs. self c = JObj kvs)"
  using assms by (cases "self c") (auto simp: patch_case_def)

lemma step_frame:
  assumes "patch_case vs st fr c = Inr (c', st', fr')" and "req c' \<noteq> At a"
  shows "st' a = st a"
proof -
  from patch_case_shape [OF assms(1)] show ?thesis
  proof (elim disjE exE)
    fix xs assume "self c = JArr xs"
    with assms(1) show ?thesis by (simp add: patch_case_array)
  next
    fix kvs assume "self c = JObj kvs"
    from patch_case_object [OF assms(1) this] assms(2) show ?thesis by auto
  qed
qed

lemma step_preserve:
  assumes "patch_case vs st fr c = Inr (c', st', fr')"
    and "\<exists>r. st a = Some r \<and> request_ok vs r"
  shows "\<exists>r. st' a = Some r \<and> request_ok vs r"
proof -
  from patch_case_shape [OF assms(1)] show ?thesis
  proof (elim disjE exE)
    fix xs assume "self c = JArr xs"
    with assms show ?thesis by (simp add: patch_case_array)
  next
    fix kvs assume "self c = JObj kvs"
    from patch_case_object [OF assms(1) this] obtain a0 r0 where
      "st' a0 = Some r0" "request_ok vs r0" "\<forall>x. x \<noteq> a0 \<longrightarrow> st' x = st x"
      by blast
    with assms(2) show ?thesis by (cases "a = a0") auto
  qed
qed

lemma patch_loop_Cons:
  assumes "patch_loop vs (c # cs) st fr = Inr b'"
  shows "\<exists>c' st1 fr1 b1. patch_case vs st fr c = Inr (c', st1, fr1)
           \<and> patch_loop vs cs st1 fr1 = Inr b1
           \<and> cases b' = c' # cases b1 \<and> store b' = store b1"
  using assms by (auto split: sum.splits)

lemma loop_frame:
  "patch_loop vs cs st fr = Inr b' \<Longrightarrow> list_all (\<lambda>l. req l \<noteq> At a) (cases b')
   \<Longrightarrow> store b' a = st a"
proof (induction cs arbitrary: st fr b')
  case Nil
  then show ?case by auto
next
  case (Cons c cs)
  from patch_loop_Cons [OF Cons.prems(1)] obtain c' st1 fr1 b1 where
    s: "patch_case vs st fr c = Inr (c', st1, fr1)" "patch_loop vs cs st1 fr1 = Inr b1"
      "cases b' = c' # cases b1" "store b' = store b1"
    by blast
  from Cons.prems(2) s(3) have "req c' \<noteq> At a" "list_all (\<lambda>l. req l \<noteq> At a) (cases b1)"
    by simp_all
  with Cons.IH [OF s(2)] step_frame [OF s(1)] s(4) show ?case by simp
qed

lemma loop_preserve:
  "patch_loop vs cs st fr = Inr b' \<Longrightarrow> \<exists>r. st a = Some r \<and> request_ok vs r
   \<Longrightarrow> \<exists>r. store b' a = Some r \<and> request_ok vs r"
proof (induction cs arbitrary: st fr b')
  case Nil
  then show ?case by auto
next
  case (Cons c cs)
  from patch_loop_Cons [OF Cons.prems(1)] obtain c' st1 fr1 b1 where
    s: "patch_case vs st fr c = Inr (c', st1, fr1)" "patch_loop vs cs st1 fr1 = Inr b1"
      "cases b' = c' # cases b1" "store b' = store b1"
    by blast
  from Cons.IH [OF s(2) step_preserve [OF s(1) Cons.prems(2)]] s(4) show ?case by simp
qed

lemma patch_loop_effect:
  "patch_loop vs cs st fr = Inr b' \<Longrightarrow>
   length (cases b') = length cs
   \<and> (\<forall>i<length cs. patched_case vs (cs ! i) (cases b' ! i) (store b') (drop (Suc i) (cases b')))"
proof (induction cs arbitrary: st fr b')
  case Nil
  then show ?case by auto
next
  case (Cons c cs)
  from patch_loop_Cons [OF Cons.prems] obtain c' st1 fr1 b1 where
    s: "patch_case vs st fr c = Inr (c', st1, fr1)" "patch_loop vs cs st1 fr1 = Inr b1"
      "cases b' = c' # cases b1" "store b' = store b1"
    by blast
  note ih = Cons.IH [OF s(2)]
  have len: "length (cases b') = length (c # cs)"
    using ih s(3) by simp
  have head: "patched_case vs c c' (store b') (cases b1)"
  proof -
    from patch_case_shape [OF s(1)] show ?thesis
    proof (elim disjE exE)
      fix xs assume "self c = JArr xs"
      with s(1) show ?thesis by (simp add: patch_case_array patched_case_def)
    next
      fix kvs assume obj: "self c = JObj kvs"
      from patch_case_object [OF s(1) obj] obtain kvs' a r er where
        o: "self c' = JObj kvs'" "req c' = At a" "st1 a = Some r"
          "map_of kvs' ''id'' = map_of kvs ''id''"
          "map_of kvs' ''category'' = map_of kvs ''category''"
          "map_of kvs' ''expected_response'' = Some er"
          "status_ok vs (map_of kvs ''category'') er"
          "request_ok vs r"
          "http_method vs \<in> set methodsWithBody \<and> map_of kvs ''category'' = Some (JStr ''valid'')
             \<longrightarrow> is_array r \<or> get_prop r ''body'' = Some (body vs)"
        by blast
      from loop_preserve [OF s(2), of a] o(3,8) obtain r2 where
        r2: "store b' a = Some r2" "request_ok vs r2"
        using s(4) by auto
      have body: "is_array r2 \<or> get_prop r2 ''body'' = Some (body vs)"
        if "http_method vs \<in> set methodsWithBody \<and> map_of kvs ''category'' = Some (JStr ''valid'')
            \<and> list_all (\<lambda>l. req l \<noteq> At a) (cases b1)"
      proof -
        from loop_frame [OF s(2), of a] that have "store b1 a = st1 a" by simp
        with r2(1) o(3) s(4) have "r2 = r" by simp
        with o(9) that show ?thesis by simp
      qed
      from o r2 body obj show ?thesis
        unfolding patched_case_def by simp
    qed
  qed
  have each: "patched_case vs ((c # cs) ! i) (cases b' ! i) (store b') (drop (Suc i) (cases b'))"
    if "i < length (c # cs)" for i
  proof (cases i)
    case 0
    with head s(3) show ?thesis by simp
  next
    case (Suc n)
    with that ih s(3,4) show ?thesis by simp
  qed
  from len each show ?case by blast
qed

lemma view_object:
  assumes "self c = JObj kvs" and "req c = At a" and "st a = Some r"
  shows "get_prop (view st c) ''request'' = Some r"
    and "k \<noteq> ''request'' \<Longrightarrow> get_prop (view st c) k = map_of kvs k"
  using assms by (simp_all add: view_def get_prop_def obj_simps)

text \<open>
  C4, amended.  When the patching step completes, the batch has as many cases as before,
  and every case that is an object keeps its id and category and has: its expected status
  set to 201 (valid case, POST), 200 (valid case, any other method) or 400 (any other
  category), whatever status the specification's \<^verbatim>\<open>expected_response\<close> names; a
  request with the specification's method, endpoint and headers; for a method without a
  body, no request body; and for a body-bearing method and a valid case whose request
  object no later case of the batch holds too, the specification's own body as request
  body.
\<close>

theorem patch_all_effect:
  assumes "patch_all vs b = Inr b'"
  shows "length (cases b') = length (cases b)
       \<and> (\<forall>i<length (cases b). \<forall>kvs. self (cases b ! i) = JObj kvs \<longrightarrow>
            (\<exists>a r er.
                req (cases b' ! i) = At a
                \<and> get_prop (view (store b') (cases b' ! i)) ''id'' = map_of kvs ''id''
                \<and> get_prop (view (store b') (cases b' ! i)) ''category'' = map_of kvs ''category''
                \<and> get_prop (view (store b') (cases b' ! i)) ''request'' = Some r
                \<and> get_prop (view (store b') (cases b' ! i)) ''expected_response'' = Some er
                \<and> status_ok vs (map_of kvs ''category'') er
                \<and> request_ok vs r
                \<and> (http_method vs \<in> set methodsWithBody
                    \<and> map_of kvs ''category'' = Some (JStr ''valid'')
                    \<and> (\<forall>j. i < j \<and> j < length (cases b') \<longrightarrow> req (cases b' ! j) \<noteq> At a)
                    \<longrightarrow> is_array r \<or> get_prop r ''body'' = Some (body vs))))"
proof -
  from assms have loop: "patch_loop vs (cases b) (store b) (fresh b) = Inr b'"
    by (simp add: patch_all_def)
  note eff = patch_loop_effect [OF loop]
  have each: "\<exists>a r er.
                req (cases b' ! i) = At a
                \<and> get_prop (view (store b') (cases b' ! i)) ''id'' = map_of kvs ''id''
                \<and> get_prop (view (store b') (cases b' ! i)) ''category'' = map_of kvs ''category''
                \<and> get_prop (view (store b') (cases b' ! i)) ''request'' = Some r
                \<and> get_prop (view (store b') (cases b' ! i)) ''expected_response'' = Some er
                \<and> status_ok vs (map_of kvs ''category'') er
                \<and> request_ok vs r
                \<and> (http_method vs \<in> set methodsWithBody
                    \<and> map_of kvs ''category'' = Some (JStr ''valid'')
                    \<and> (\<forall>j. i < j \<and> j < length (cases b') \<longrightarrow> req (cases b' ! j) \<noteq> At a)
                    \<longrightarrow> is_array r \<or> get_prop r ''body'' = Some (body vs))"
    if i: "i < length (cases b)" and obj: "self (cases b ! i) = JObj kvs" for i kvs
  proof -
    from eff i have "patched_case vs (cases b ! i) (cases b' ! i) (store b') (drop (Suc i) (cases b'))"
      by blast
    with obj obtain kvs' a r er where
      o: "self (cases b' ! i) = JObj kvs'" "req (cases b' ! i) = At a" "store b' a = Some r"
        "map_of kvs' ''id'' = map_of kvs ''id''"
        "map_of kvs' ''category'' = map_of kvs ''category''"
        "map_of kvs' ''expected_response'' = Some er"
        "status_ok vs (map_of kvs ''category'') er"
        "request_ok vs r"
        "http_method vs \<in> set methodsWithBody \<and> map_of kvs ''category'' = Some (JStr ''valid'')
           \<and> list_all (\<lambda>l. req l \<noteq> At a) (drop (Suc i) (cases b'))
           \<longrightarrow> is_array r \<or> get_prop r ''body'' = Some (body vs)"
      unfolding patched_case_def by auto
    have later: "list_all (\<lambda>l. req l \<noteq> At a) (drop (Suc i) (cases b'))"
      if "\<forall>j. i < j \<and> j < length (cases b') \<longrightarrow> req (cases b' ! j) \<noteq> At a"
      using that by (auto simp: list_all_length)
    note v = view_object [of "cases b' ! i" kvs' a "store b'" r, OF o(1,2,3)]
    have "get_prop (view (store b') (cases b' ! i)) ''id'' = map_of kvs ''id''"
      "get_prop (view (store b') (cases b' ! i)) ''category'' = map_of kvs ''category''"
      "get_prop (view (store b') (cases b' ! i)) ''request'' = Some r"
      "get_prop (view (store b') (cases b' ! i)) ''expected_response'' = Some er"
      using v(1) v(2) [of "''id''"] v(2) [of "''category''"] v(2) [of "''expected_response''"] o(4,5,6)
      by simp_all
    with o(2,7,8,9) later show ?thesis by blast
  qed
  from eff each show ?thesis by blast
qed

theorem patch_all_effect_witness:
  "patch_all demo_vspec generateFallbackTestCases
     = Inr (after_patch demo_vspec generateFallbackTestCases)
   \<and> length (cases (after_patch demo_vspec generateFallbackTestCases)) = 12
   \<and> (\<exists>r er.
        get_prop (view (store (after_patch demo_vspec generateFallbackTestCases))
                    (cases (after_patch demo_vspec generateFallbackTestCases) ! 0)) ''request'' = Some r
        \<and> get_prop r ''body'' = Some (body demo_vspec)
        \<and> get_prop (view (store (after_patch demo_vspec generateFallbackTestCases))
                    (cases (after_patch demo_vspec generateFallbackTestCases) ! 0)) ''expected_response''
            = Some er
        \<and> get_prop er ''status'' = Some (JNum 201))"
proof -
  let ?P = "after_patch demo_vspec generateFallbackTestCases"
  let ?v = "view (store ?P) (cases ?P ! 0)"
  have "\<not> isl (patch_all demo_vspec generateFallbackTestCases)" by code_simp
  then have h: "patch_all demo_vspec generateFallbackTestCases = Inr ?P"
    by (cases "patch_all demo_vspec generateFallbackTestCases") (simp_all add: after_patch_def)
  note th = patch_all_effect [OF h]
  from th have len: "length (cases ?P) = 12"
    by (simp add: fallback_length)
  define K0 where
    "K0 = [(''id'', JStr (tc_id 1)), (''category'', JStr (band 1)),
           (''description'', JStr (band 1 @ '' test '' @ show_nat 1)),
           (''request'', fallback_request),
           (''expected_response'', JObj [(''status'', JNum 200)])]"
  have c0: "self (cases generateFallbackTestCases ! 0) = JObj K0"
  proof -
    have "self (cases generateFallbackTestCases ! 0) = map self (cases generateFallbackTestCases) ! 0"
      by (simp add: fallback_length)
    then show ?thesis by (simp add: fallback_selfs fallback_case_def K0_def)
  qed
  have cat: "map_of K0 ''category'' = Some (JStr ''valid'')"
    by (simp add: K0_def band_def)
  have post: "http_method demo_vspec \<in> set methodsWithBody" "http_method demo_vspec = ''POST''"
    by (simp_all add: demo_vspec_def methodsWithBody_def)
  have reqs: "map req (cases ?P) = map At [0..<12]" by code_simp
  have req_at: "req (cases ?P ! j) = At j" if "j < 12" for j
  proof -
    have "req (cases ?P ! j) = map req (cases ?P) ! j" using that len by simp
    also have "\<dots> = At j" using that by (simp add: reqs)
    finally show ?thesis .
  qed
  have i0: "0 < length (cases generateFallbackTestCases)"
    by (simp add: fallback_length)
  from conjunct2 [OF th, rule_format, OF i0 c0] obtain a r er where
    o: "req (cases ?P ! 0) = At a" "get_prop ?v ''request'' = Some r"
      "get_prop ?v ''expected_response'' = Some er"
      "status_ok demo_vspec (map_of K0 ''category'') er"
      "http_method demo_vspec \<in> set methodsWithBody
         \<and> map_of K0 ''category'' = Some (JStr ''valid'')
         \<and> (\<forall>j. 0 < j \<and> j < length (cases ?P) \<longrightarrow> req (cases ?P ! j) \<noteq> At a)
         \<longrightarrow> is_array r \<or> get_prop r ''body'' = Some (body demo_vspec)"
    by blast
  from o(1) req_at [of 0] have a0: "a = 0" by simp
  have alone: "\<forall>j. 0 < j \<and> j < length (cases ?P) \<longrightarrow> req (cases ?P ! j) \<noteq> At a"
    using req_at len a0 by auto
  have "(case get_prop ?v ''request'' of Some r \<Rightarrow> \<not> is_array r | None \<Rightarrow> False)"
    by code_simp
  with o(2) have nr: "\<not> is_array r" by simp
  have "(case get_prop ?v ''expected_response'' of Some er \<Rightarrow> \<not> is_array er | None \<Rightarrow> False)"
    by code_simp
  with o(3) have ne: "\<not> is_array er" by simp
  from o(5) post(1) cat alone nr have body: "get_prop r ''body'' = Some (body demo_vspec)"
    by simp
  from o(4) ne cat post(2) have st: "get_prop er ''status'' = Some (JNum 201)"
    by (simp add: status_ok_def)
  from h len o(2,3) body st show ?thesis by blast
qed

text \<open>
  The claim as stated fails for a POST whose specification names 200 as the success
  status: the valid cases are patched to expect 201.
\<close>

theorem patch_ignores_expected_status_counterexample:
  "http_method demo_vspec_200 = ''POST''
   \<and> expected_response demo_vspec_200 = JObj [(''status'', JNum 200)]
   \<and> map (\<lambda>j. (get_prop j ''category'', get_prop j ''expected_response''))
        (take 3 (view_all (after_patch demo_vspec_200 generateFallbackTestCases)))
      = [(Some (JStr ''valid''), Some (JObj [(''status'', JNum 201)])),
         (Some (JStr ''valid''), Some (JObj [(''status'', JNum 201)])),
         (Some (JStr ''valid''), Some (JObj [(''status'', JNum 201)]))]"
  by code_simp

text \<open>
  Where the request object is shared, the last case that holds it decides its body.  The
  model answers with four cases; the eight cases the engine adds hold the request object
  of the first.  After the step the first case, a valid one, carries the body written for
  the twelfth, while the second valid case, which has a request object of its own, carries
  the specification's body.
\<close>

lemma shared_request_is_overwritten:
  "map req (cases (slice12 (pad (load short_cases))))
     = [At 0, Inline, Inline, Inline, At 0, At 0, At 0, At 0, At 0, At 0, At 0, At 0]
   \<and> get_prop (view_all (after_patch demo_vspec (slice12 (pad (load short_cases)))) ! 0) ''category''
       = Some (JStr ''valid'')
   \<and> (case get_prop (view_all (after_patch demo_vspec (slice12 (pad (load short_cases)))) ! 0) ''request'' of
         Some r \<Rightarrow> get_prop r ''body''
       | None \<Rightarrow> None)
       = Some (JObj [(''name'', JStr xss_payload), (''email'', JStr sqli_payload)])
   \<and> (case get_prop (view_all (after_patch demo_vspec (slice12 (pad (load short_cases)))) ! 1) ''request'' of
         Some r \<Rightarrow> get_prop r ''body''
       | None \<Rightarrow> None)
       = Some (body demo_vspec)"
  by code_simp

end
